theory Spec2Isabelle
  imports Main "HOL-Library.AList"
begin

section \<open>The mobile input-request broker (class MonitoringManager)\<close>

text \<open>
  A shallow embedding of the monitoring manager of the listener: the registry of
  connected devices, the table of pending input requests, the fan-out of a request
  over the live channels and the push fallback, and the handler of the blocking
  \<^verbatim>\<open>/input-request\<close> endpoint.

  The manager runs on a single-threaded event loop, so each method and each callback
  is a function from the state before to the state after; an asynchronous method is
  one such function up to each \<^verbatim>\<open>await\<close>, and what is left of it waits in the state.
  What the code does to the outside (frames written to a socket, sockets closed,
  pushes handed to the provider, a promise resolved or rejected) is appended to a
  trace, in the order of the calls.
  Logging is left out. Dates and the clock are natural numbers (milliseconds).
\<close>

subsection \<open>Data\<close>

text \<open>\<^verbatim>\<open>WebSocket.readyState\<close> of the ws library.\<close>

datatype ready_state = CONNECTING | OPEN | CLOSING | CLOSED

text \<open>\<^verbatim>\<open>'numeric' | 'yesno' | 'text'\<close> and \<^verbatim>\<open>'active' | 'disconnected'\<close>.\<close>

datatype input_type = Numeric | YesNo | FreeText

datatype session_status = Active | Disconnected

record MonitoringSession =
  deviceId :: string
  deviceName :: string
  apnsToken :: "string option"
  startTime :: nat
  lastSeen :: nat
  status :: session_status
  reconnectAttempts :: nat

text \<open>A socket is known by its reference; its ready state lives in the state below.\<close>

record ConnectedClient =
  ws :: nat
  session :: MonitoringSession
  isAlive :: bool

record InputRequiredPayload =
  pl_sessionId :: string
  pl_projectTag :: string
  pl_prompt :: string
  pl_options :: "string list"
  pl_inputType :: input_type

record HandshakeAckPayload =
  listenerId :: string
  listenerName :: string
  version :: string
  activeSessions :: nat

text \<open>
  The errors a request's promise is rejected with, named after their messages:
  \<^verbatim>\<open>No mobile devices connected for monitoring and no APNs tokens available\<close>,
  \<^verbatim>\<open>Mobile input request timed out after N seconds\<close> (the argument is the timeout
  in milliseconds) and \<^verbatim>\<open>Input request cancelled\<close>. \<open>TypeError\<close> is the
  dereference of a null configuration.
\<close>

datatype error = NoRecipients | TimedOut int | Cancelled | TypeError

text \<open>
  A pending request holds the \<^verbatim>\<open>resolve\<close>/\<^verbatim>\<open>reject\<close> pair of the promise the
  caller awaits: \<open>continuation\<close> is the reference of that promise. \<open>timeoutId\<close> is the
  reference of its deadline timer.
\<close>

record PendingInputRequest =
  requestId :: string
  sessionId :: string
  projectTag :: string
  prompt :: string
  options :: "string list"
  inputType :: input_type
  createdAt :: nat
  continuation :: nat
  timeoutId :: nat
  notifiedDevices :: "string set"
  pushedViaApns :: "string set"

text \<open>The messages the manager writes to a socket, each with its timestamp.\<close>

datatype MonitoringMessage =
    handshake_ack nat HandshakeAckPayload
  | heartbeat_ack nat
  | input_required nat InputRequiredPayload
  | task_complete nat string string "string option"

text \<open>
  The messages a device sends, after \<^verbatim>\<open>JSON.parse\<close>: the type and the fields of
  the payload the manager reads. A missing payload is \<open>None\<close>; a missing string
  field is the empty string, which the code treats alike (both are falsy).
\<close>

record HandshakePayload =
  hs_deviceName :: string

record InputResponsePayload =
  ir_sessionId :: string
  ir_response :: string

datatype incoming =
    handshake "HandshakePayload option"
  | heartbeat
  | input_response "InputResponsePayload option"
  | other_message string

text \<open>What the manager does to the outside.\<close>

datatype effect =
    Send nat MonitoringMessage
  | Close nat "(nat \<times> string) option"
  | Terminate nat
  | Ping nat
  | ApnsSend string InputRequiredPayload
  | ApnsShutdown
  | WssClose
  | Resolve nat string
  | Reject nat error

text \<open>
  The callbacks handed to \<^verbatim>\<open>setTimeout\<close>, with the variables they close over:
  the deadline of a request (its session id, its promise and the timeout in
  milliseconds) and the expiry of a disconnected session (the device id).
\<close>

datatype timer = InputTimeout string nat int | SessionTimeout string

record ApnsConfig =
  enabled :: bool
  key_path :: "string option"
  key_id :: "string option"
  team_id :: "string option"
  bundle_id :: "string option"
  production :: "bool option"

record MonitoringConfig =
  input_timeout_minutes :: int
  apns :: "ApnsConfig option"

record Config =
  listener_id :: string
  listener_friendly_name :: string
  monitoring :: "MonitoringConfig option"

text \<open>
  A call of \<^verbatim>\<open>sendApnsPushToDisconnectedDevices\<close> is asynchronous: it runs until
  its first \<^verbatim>\<open>await\<close> and goes on, in a later turn of the event loop, when the push it
  waits for has settled. \<open>PushLoop\<close> is such a call while it is suspended at
  \<^verbatim>\<open>await this.sendApnsPush(apnsToken, payload)\<close>: its argument \<open>payload\<close>; of its
  argument \<open>pendingRequest\<close> the key the request is stored under and the set
  \<^verbatim>\<open>pushedViaApns\<close>; the number of entries of \<^verbatim>\<open>deviceApnsTokens\<close> its iterator has
  passed; the \<^verbatim>\<open>deviceId\<close> of the iteration that waits; and whether \<^verbatim>\<open>sendApnsPush\<close>
  went past its guard and called the provider (otherwise it has returned \<^verbatim>\<open>false\<close>).
\<close>

record PushLoop =
  lp_payload :: InputRequiredPayload
  lp_sessionId :: string
  lp_pushedViaApns :: "string set"
  lp_position :: nat
  lp_deviceId :: string
  lp_called :: bool

text \<open>
  The fields of the manager, followed by the part of the runtime it acts on: the
  ready state of every socket, the sockets that have the listeners of
  \<^verbatim>\<open>handleConnection\<close> installed (each with the \<^verbatim>\<open>deviceId\<close> its listeners close
  over), the timers that are armed, the suspended push loops (each under the promise
  of its request, which tells the request objects apart), the next timer and promise
  references, and the trace. The three maps are JavaScript \<^verbatim>\<open>Map\<close>s, which iterate
  in insertion order: association lists, written with \<open>AList.update\<close> (which keeps
  the place of a key that is present and appends a new one) and \<open>AList.delete\<close>.
\<close>

record MonitoringManager =
  wss :: bool
  clients :: "(string \<times> ConnectedClient) list"
  pendingRequests :: "(string \<times> PendingInputRequest) list"
  heartbeatInterval :: bool
  config :: "Config option"
  apnsProvider :: bool
  inputTimeoutMs :: int
  deviceApnsTokens :: "(string \<times> string) list"
  readyState :: "nat \<Rightarrow> ready_state"
  listeners :: "(nat \<times> string) list"
  timers :: "(nat \<times> timer) list"
  pushLoops :: "(nat \<times> PushLoop) list"
  nextTimer :: nat
  nextPromise :: nat
  trace :: "effect list"

definition DEFAULT_INPUT_TIMEOUT_MINUTES :: int where
  "DEFAULT_INPUT_TIMEOUT_MINUTES = 30"

text \<open>The manager as its field initialisers leave it, with no socket open.\<close>

definition new_manager :: MonitoringManager where
  "new_manager =
     \<lparr>wss = False, clients = [], pendingRequests = [], heartbeatInterval = False,
      config = None, apnsProvider = False,
      inputTimeoutMs = DEFAULT_INPUT_TIMEOUT_MINUTES * 60 * 1000,
      deviceApnsTokens = [],
      readyState = (\<lambda>_. CLOSED), listeners = [], timers = [], pushLoops = [],
      nextTimer = 0, nextPromise = 0, trace = []\<rparr>"

subsection \<open>The runtime: sockets, timers, promises\<close>

definition emit :: "effect \<Rightarrow> MonitoringManager \<Rightarrow> MonitoringManager" where
  "emit e st = st\<lparr>trace := trace st @ [e]\<rparr>"

text \<open>\<^verbatim>\<open>ws.close(...)\<close> and \<^verbatim>\<open>ws.terminate()\<close> leave the socket closing.\<close>

definition ws_close :: "nat \<Rightarrow> (nat \<times> string) option \<Rightarrow> MonitoringManager \<Rightarrow> MonitoringManager" where
  "ws_close w reason st = emit (Close w reason) (st\<lparr>readyState := (readyState st)(w := CLOSING)\<rparr>)"

definition ws_terminate :: "nat \<Rightarrow> MonitoringManager \<Rightarrow> MonitoringManager" where
  "ws_terminate w st = emit (Terminate w) (st\<lparr>readyState := (readyState st)(w := CLOSING)\<rparr>)"

text \<open>The server hands a socket it accepted to the connection listener: it is open.\<close>

definition accept :: "nat \<Rightarrow> MonitoringManager \<Rightarrow> MonitoringManager" where
  "accept w st = st\<lparr>readyState := (readyState st)(w := OPEN)\<rparr>"

text \<open>\<^verbatim>\<open>setTimeout\<close> arms a fresh timer; \<^verbatim>\<open>clearTimeout\<close> disarms one.\<close>

definition setTimeout :: "timer \<Rightarrow> MonitoringManager \<Rightarrow> nat \<times> MonitoringManager" where
  "setTimeout cb st =
     (nextTimer st,
      st\<lparr>timers := AList.update (nextTimer st) cb (timers st), nextTimer := Suc (nextTimer st)\<rparr>)"

definition clearTimeout :: "nat \<Rightarrow> MonitoringManager \<Rightarrow> MonitoringManager" where
  "clearTimeout t st = st\<lparr>timers := AList.delete t (timers st)\<rparr>"

text \<open>\<^verbatim>\<open>a || b\<close> on a query parameter: a missing or empty string gives the default.\<close>

definition or_default :: "string option \<Rightarrow> string \<Rightarrow> string" where
  "or_default a b = (case a of None \<Rightarrow> b | Some s \<Rightarrow> if s = [] then b else s)"

definition or_undefined :: "string option \<Rightarrow> string option" where
  "or_undefined a = (case a of None \<Rightarrow> None | Some s \<Rightarrow> if s = [] then None else Some s)"

text \<open>JavaScript truthiness of an optional string.\<close>

definition truthy :: "string option \<Rightarrow> bool" where
  "truthy a = (case a of None \<Rightarrow> False | Some s \<Rightarrow> s \<noteq> [])"

subsection \<open>Start-up\<close>

text \<open>
  \<open>created\<close> says whether \<^verbatim>\<open>new apn.Provider(...)\<close> returns (\<open>True\<close>) or throws;
  the error is caught and logged.
\<close>

definition initializeApns :: "ApnsConfig option \<Rightarrow> bool \<Rightarrow> MonitoringManager \<Rightarrow> MonitoringManager" where
  "initializeApns apnsConfig created st =
     (case apnsConfig of
        None \<Rightarrow> st
      | Some c \<Rightarrow>
          if \<not> enabled c then st
          else if \<not> truthy (key_path c) \<or> \<not> truthy (key_id c) \<or> \<not> truthy (team_id c)
                  \<or> \<not> truthy (bundle_id c) then st
          else if created then st\<lparr>apnsProvider := True\<rparr> else st)"

text \<open>
  \<^verbatim>\<open>initialize\<close>, without the upgrade listener (the check of the auth token
  before a connection is handed to \<^verbatim>\<open>handleConnection\<close>).
\<close>

definition initialize :: "Config \<Rightarrow> bool \<Rightarrow> MonitoringManager \<Rightarrow> MonitoringManager" where
  "initialize cfg created st =
     (let st1 = st\<lparr>config := Some cfg\<rparr>;
          st2 = (case monitoring cfg of
                   None \<Rightarrow> st1
                 | Some m \<Rightarrow>
                     if input_timeout_minutes m \<noteq> 0
                     then st1\<lparr>inputTimeoutMs := input_timeout_minutes m * 60 * 1000\<rparr>
                     else st1);
          st3 = initializeApns (case monitoring cfg of None \<Rightarrow> None | Some m \<Rightarrow> apns m) created st2
      in st3\<lparr>wss := True, heartbeatInterval := True\<rparr>)"

subsection \<open>Sending\<close>

definition sendMessage :: "nat \<Rightarrow> MonitoringMessage \<Rightarrow> MonitoringManager \<Rightarrow> MonitoringManager" where
  "sendMessage w m st = (if readyState st w = OPEN then emit (Send w m) st else st)"

definition payload_of :: "PendingInputRequest \<Rightarrow> InputRequiredPayload" where
  "payload_of request =
     \<lparr>pl_sessionId = sessionId request, pl_projectTag = projectTag request,
      pl_prompt = prompt request, pl_options = options request,
      pl_inputType = inputType request\<rparr>"

text \<open>The body of the \<^verbatim>\<open>forEach\<close> of \<^verbatim>\<open>resendPendingRequestsToDevice\<close>.\<close>

definition resend_request ::
  "string \<Rightarrow> nat \<Rightarrow> nat \<Rightarrow> MonitoringManager \<Rightarrow> string \<times> PendingInputRequest \<Rightarrow> MonitoringManager" where
  "resend_request dev w now st entry =
     (let request = snd entry in
      if dev \<notin> notifiedDevices request then
        (let st1 = sendMessage w (input_required now (payload_of request)) st
         in st1\<lparr>pendingRequests :=
                  AList.map_entry (fst entry)
                    (\<lambda>r. r\<lparr>notifiedDevices := insert dev (notifiedDevices r)\<rparr>)
                    (pendingRequests st1)\<rparr>)
      else st)"

definition resendPendingRequestsToDevice ::
  "string \<Rightarrow> nat \<Rightarrow> nat \<Rightarrow> MonitoringManager \<Rightarrow> MonitoringManager" where
  "resendPendingRequestsToDevice dev w now st =
     foldl (resend_request dev w now) st (pendingRequests st)"

subsection \<open>Connections\<close>

text \<open>
  \<^verbatim>\<open>handleConnection\<close>: \<open>w\<close> is the new socket; \<open>qId\<close>, \<open>qName\<close> and \<open>qToken\<close> are
  the query parameters \<^verbatim>\<open>deviceId\<close>, \<^verbatim>\<open>deviceName\<close> and \<^verbatim>\<open>apnsToken\<close> of the
  request (\<open>None\<close> when absent). The listeners it installs on the socket at its end
  are the functions \<open>on_message\<close>, \<open>on_pong\<close> and \<open>on_close\<close> below, which take the
  device id they close over. With no configuration the acknowledgement dereferences
  null and the listener throws.
\<close>

definition handleConnection ::
  "nat \<Rightarrow> string option \<Rightarrow> string option \<Rightarrow> string option \<Rightarrow> nat \<Rightarrow> MonitoringManager
     \<Rightarrow> error + MonitoringManager" where
  "handleConnection w qId qName qToken now st =
     (let dev = or_default qId ''unknown'';
          name = or_default qName ''Unknown Device'';
          token = or_undefined qToken;
          st1 = (case token of
                   Some t \<Rightarrow> st\<lparr>deviceApnsTokens := AList.update dev t (deviceApnsTokens st)\<rparr>
                 | None \<Rightarrow> st);
          session0 = \<lparr>deviceId = dev, deviceName = name, apnsToken = token, startTime = now,
                      lastSeen = now, status = Active, reconnectAttempts = 0\<rparr>;
          existingClient = map_of (clients st1) dev;
          session1 = (case existingClient of
                        None \<Rightarrow> session0
                      | Some ex \<Rightarrow>
                          session0\<lparr>startTime := startTime (session ex),
                                    reconnectAttempts := reconnectAttempts (session ex) + 1,
                                    apnsToken := (if token = None \<and> truthy (apnsToken (session ex))
                                                  then apnsToken (session ex) else token)\<rparr>);
          st2 = (case existingClient of
                   None \<Rightarrow> st1
                 | Some ex \<Rightarrow> if readyState st1 (ws ex) = OPEN then ws_close (ws ex) None st1 else st1);
          client = \<lparr>ws = w, session = session1, isAlive = True\<rparr>;
          st3 = st2\<lparr>clients := AList.update dev client (clients st2)\<rparr>;
          st4 = resendPendingRequestsToDevice dev w now st3
      in case config st4 of
           None \<Rightarrow> Inl TypeError
         | Some cfg \<Rightarrow>
             (let st5 = sendMessage w
                          (handshake_ack now
                             \<lparr>listenerId = listener_id cfg, listenerName = listener_friendly_name cfg,
                              version = ''1.0.0'', activeSessions = length (clients st4)\<rparr>)
                          st4
              in Inr (st5\<lparr>listeners := AList.update w dev (listeners st5)\<rparr>)))"

text \<open>
  \<^verbatim>\<open>handleInputResponse\<close>: the answer of a device to the request \<open>sid\<close>. The name of
  the device is only logged.
\<close>

definition handleInputResponse :: "string \<Rightarrow> string \<Rightarrow> string \<Rightarrow> MonitoringManager \<Rightarrow> MonitoringManager" where
  "handleInputResponse sid response name st =
     (case map_of (pendingRequests st) sid of
        None \<Rightarrow> st
      | Some pendingRequest \<Rightarrow>
          (let st1 = clearTimeout (timeoutId pendingRequest) st;
               st2 = st1\<lparr>pendingRequests := AList.delete sid (pendingRequests st1)\<rparr>
           in emit (Resolve (continuation pendingRequest) response) st2))"

definition handleMessage :: "string \<Rightarrow> incoming \<Rightarrow> nat \<Rightarrow> MonitoringManager \<Rightarrow> MonitoringManager" where
  "handleMessage dev message now st =
     (case map_of (clients st) dev of
        None \<Rightarrow> st
      | Some client0 \<Rightarrow>
          (let touch = (\<lambda>c. c\<lparr>session := (session c)\<lparr>lastSeen := now\<rparr>\<rparr>);
               st1 = st\<lparr>clients := AList.map_entry dev touch (clients st)\<rparr>;
               client = touch client0
           in case message of
                handshake hs \<Rightarrow>
                  (case hs of
                     None \<Rightarrow> st1
                   | Some h \<Rightarrow>
                       st1\<lparr>clients :=
                             AList.map_entry dev
                               (\<lambda>c. c\<lparr>session := (session c)
                                        \<lparr>deviceName := or_default (Some (hs_deviceName h))
                                                          (deviceName (session c))\<rparr>\<rparr>)
                               (clients st1)\<rparr>)
              | heartbeat \<Rightarrow> sendMessage (ws client) (heartbeat_ack now) st1
              | input_response ir \<Rightarrow>
                  (case ir of
                     None \<Rightarrow> st1
                   | Some r \<Rightarrow>
                       if ir_sessionId r \<noteq> []
                       then handleInputResponse (ir_sessionId r) (ir_response r)
                              (deviceName (session client)) st1
                       else st1)
              | other_message _ \<Rightarrow> st1))"

text \<open>
  The socket listeners: \<open>parsed\<close> is the outcome of \<^verbatim>\<open>JSON.parse\<close> (\<open>None\<close> when it
  throws; the error is caught and logged).
\<close>

definition on_message :: "string \<Rightarrow> incoming option \<Rightarrow> nat \<Rightarrow> MonitoringManager \<Rightarrow> MonitoringManager" where
  "on_message dev parsed now st =
     (case parsed of None \<Rightarrow> st | Some message \<Rightarrow> handleMessage dev message now st)"

definition on_pong :: "string \<Rightarrow> nat \<Rightarrow> MonitoringManager \<Rightarrow> MonitoringManager" where
  "on_pong dev now st =
     st\<lparr>clients :=
          AList.map_entry dev
            (\<lambda>c. c\<lparr>isAlive := True, session := (session c)\<lparr>lastSeen := now, status := Active\<rparr>\<rparr>)
            (clients st)\<rparr>"

definition on_close :: "string \<Rightarrow> MonitoringManager \<Rightarrow> MonitoringManager" where
  "on_close dev st =
     (case map_of (clients st) dev of
        None \<Rightarrow> st
      | Some _ \<Rightarrow>
          (let st1 = st\<lparr>clients :=
                          AList.map_entry dev
                            (\<lambda>c. c\<lparr>session := (session c)\<lparr>status := Disconnected\<rparr>\<rparr>)
                            (clients st)\<rparr>
           in snd (setTimeout (SessionTimeout dev) st1)))"

text \<open>
  A timer that is armed fires: it is disarmed and its callback runs. A timer that was
  cleared, or has fired, is not armed and does nothing.
\<close>

definition fire_timer :: "nat \<Rightarrow> MonitoringManager \<Rightarrow> MonitoringManager" where
  "fire_timer t st =
     (case map_of (timers st) t of
        None \<Rightarrow> st
      | Some cb \<Rightarrow>
          (let st1 = st\<lparr>timers := AList.delete t (timers st)\<rparr>
           in case cb of
                InputTimeout sid k ms \<Rightarrow>
                  emit (Reject k (TimedOut ms))
                    (st1\<lparr>pendingRequests := AList.delete sid (pendingRequests st1)\<rparr>)
              | SessionTimeout dev \<Rightarrow>
                  (case map_of (clients st1) dev of
                     None \<Rightarrow> st1
                   | Some currentClient \<Rightarrow>
                       if status (session currentClient) = Disconnected
                       then st1\<lparr>clients := AList.delete dev (clients st1)\<rparr>
                       else st1)))"

definition heartbeat_client :: "MonitoringManager \<Rightarrow> string \<times> ConnectedClient \<Rightarrow> MonitoringManager" where
  "heartbeat_client st entry =
     (let client = snd entry in
      if \<not> isAlive client \<and> readyState st (ws client) = OPEN then ws_terminate (ws client) st
      else
        (let st1 = st\<lparr>clients := AList.map_entry (fst entry) (\<lambda>c. c\<lparr>isAlive := False\<rparr>) (clients st)\<rparr>
         in if readyState st1 (ws client) = OPEN then emit (Ping (ws client)) st1 else st1))"

definition checkHeartbeats :: "MonitoringManager \<Rightarrow> MonitoringManager" where
  "checkHeartbeats st = foldl heartbeat_client st (clients st)"

subsection \<open>Queries\<close>

definition getConnectedDeviceCount :: "MonitoringManager \<Rightarrow> nat" where
  "getConnectedDeviceCount st =
     length (filter (\<lambda>entry. readyState st (ws (snd entry)) = OPEN) (clients st))"

definition getPendingRequestCount :: "MonitoringManager \<Rightarrow> nat" where
  "getPendingRequestCount st = length (pendingRequests st)"

definition isApnsEnabled :: "MonitoringManager \<Rightarrow> bool" where
  "isApnsEnabled st = apnsProvider st"

subsection \<open>Requests for input\<close>

text \<open>
  \<^verbatim>\<open>sendApnsPush\<close> up to its \<^verbatim>\<open>await\<close>: it returns \<^verbatim>\<open>false\<close> at its guard, or builds
  the notification and calls \<^verbatim>\<open>apnsProvider.send\<close>. The result says whether the
  provider was called.
\<close>

definition has_bundle_id :: "MonitoringManager \<Rightarrow> bool" where
  "has_bundle_id st =
     (case config st of
        None \<Rightarrow> False
      | Some cfg \<Rightarrow>
          (case monitoring cfg of
             None \<Rightarrow> False
           | Some m \<Rightarrow> (case apns m of None \<Rightarrow> False | Some a \<Rightarrow> truthy (bundle_id a))))"

definition sendApnsPush :: "string \<Rightarrow> InputRequiredPayload \<Rightarrow> MonitoringManager \<Rightarrow> bool \<times> MonitoringManager" where
  "sendApnsPush deviceToken payload st =
     (if \<not> apnsProvider st \<or> \<not> has_bundle_id st then (False, st)
      else (True, emit (ApnsSend deviceToken payload) st))"

text \<open>
  The push provider is outside the program. \<open>answer\<close> is what the call of
  \<^verbatim>\<open>apnsProvider.send\<close> comes to: it throws (\<open>Inl\<close>, with the message) or returns the
  list \<^verbatim>\<open>result.failed\<close>. \<open>sendApnsPush_returns\<close> is what \<^verbatim>\<open>sendApnsPush\<close> then
  returns; \<open>called\<close> is the result of its first part.
\<close>

definition sendApnsPush_returns :: "bool \<Rightarrow> string + string list \<Rightarrow> bool" where
  "sendApnsPush_returns called answer =
     (if \<not> called then False
      else (case answer of
              Inl err \<Rightarrow> False
            | Inr failed \<Rightarrow> if length failed > 0 then False else True))"

text \<open>
  \<^verbatim>\<open>notifyInputRequired\<close>: \<open>pending\<close> is the key of the pending request handed in
  (the object is the one stored in the table under that key), \<open>None\<close> when the
  optional argument is left out.
\<close>

definition notify_client ::
  "MonitoringMessage \<Rightarrow> string option \<Rightarrow> MonitoringManager \<Rightarrow> string \<times> ConnectedClient \<Rightarrow> MonitoringManager" where
  "notify_client message pending st entry =
     (if readyState st (ws (snd entry)) = OPEN then
        (let st1 = sendMessage (ws (snd entry)) message st
         in case pending of
              None \<Rightarrow> st1
            | Some sid \<Rightarrow>
                st1\<lparr>pendingRequests :=
                      AList.map_entry sid
                        (\<lambda>r. r\<lparr>notifiedDevices := insert (fst entry) (notifiedDevices r)\<rparr>)
                        (pendingRequests st1)\<rparr>)
      else st)"

definition notifyInputRequired ::
  "InputRequiredPayload \<Rightarrow> string option \<Rightarrow> nat \<Rightarrow> MonitoringManager \<Rightarrow> MonitoringManager" where
  "notifyInputRequired payload pending now st =
     foldl (notify_client (input_required now payload) pending) st (clients st)"

text \<open>
  The \<^verbatim>\<open>for\<close> loop of \<^verbatim>\<open>sendApnsPushToDisconnectedDevices\<close>, from the entry at position
  \<open>i\<close> of the token map on, up to its next \<^verbatim>\<open>await\<close> or to its end: \<open>entries\<close> are the
  entries the iterator has not passed, \<open>sid\<close> and \<open>k\<close> are the key and the promise of
  \<open>pendingRequest\<close>, and \<open>pushedSet\<close> is its set \<^verbatim>\<open>pushedViaApns\<close>. \<open>isConnected\<close> is the
  local constant of the loop body. An iteration that calls \<^verbatim>\<open>sendApnsPush\<close> suspends
  the loop, whatever that call does; a loop that ends is no longer kept.
\<close>

definition isConnected :: "MonitoringManager \<Rightarrow> string \<Rightarrow> bool" where
  "isConnected st dev =
     (case map_of (clients st) dev of
        None \<Rightarrow> False
      | Some client \<Rightarrow> readyState st (ws client) = OPEN)"

fun push_loop ::
  "InputRequiredPayload \<Rightarrow> string \<Rightarrow> nat \<Rightarrow> string set \<Rightarrow> nat \<Rightarrow> (string \<times> string) list
     \<Rightarrow> MonitoringManager \<Rightarrow> MonitoringManager" where
  "push_loop payload sid k pushedSet i [] st = st\<lparr>pushLoops := AList.delete k (pushLoops st)\<rparr>"
| "push_loop payload sid k pushedSet i (entry # entries) st =
     (if \<not> isConnected st (fst entry) \<and> fst entry \<notin> pushedSet then
        (case sendApnsPush (snd entry) payload st of
           (called, st1) \<Rightarrow>
             st1\<lparr>pushLoops :=
                   AList.update k
                     \<lparr>lp_payload = payload, lp_sessionId = sid, lp_pushedViaApns = pushedSet,
                      lp_position = Suc i, lp_deviceId = fst entry, lp_called = called\<rparr>
                     (pushLoops st1)\<rparr>)
      else push_loop payload sid k pushedSet (Suc i) entries st)"

text \<open>
  \<^verbatim>\<open>sendApnsPushToDisconnectedDevices\<close> up to its first \<^verbatim>\<open>await\<close>. The request object
  handed in is the one stored under \<open>sid\<close>, whose promise is \<open>k\<close>.
\<close>

definition sendApnsPushToDisconnectedDevices ::
  "InputRequiredPayload \<Rightarrow> string \<Rightarrow> nat \<Rightarrow> MonitoringManager \<Rightarrow> MonitoringManager" where
  "sendApnsPushToDisconnectedDevices payload sid k st =
     (if \<not> apnsProvider st then st
      else push_loop payload sid k
             (case map_of (pendingRequests st) sid of
                None \<Rightarrow> {}
              | Some pendingRequest \<Rightarrow> pushedViaApns pendingRequest)
             0 (deviceApnsTokens st) st)"

text \<open>
  The push that the loop of the request \<open>k\<close> waits for has settled, with \<open>answer\<close> from
  the provider: the loop takes the result of \<^verbatim>\<open>sendApnsPush\<close>, adds the device to
  \<^verbatim>\<open>pushedViaApns\<close> on success, and goes on. The iterator of a \<^verbatim>\<open>Map\<close> is live: it goes
  on at its position in the map as it is now, so it meets the entries added since. The
  set is the one of the request object the loop holds; the table holds that object
  while the request is pending (under the same key, with the same promise), so the
  addition is made there too.
\<close>

definition sendApnsPush_settled :: "nat \<Rightarrow> string + string list \<Rightarrow> MonitoringManager \<Rightarrow> MonitoringManager" where
  "sendApnsPush_settled k answer st =
     (case map_of (pushLoops st) k of
        None \<Rightarrow> st
      | Some lp \<Rightarrow>
          (let success = sendApnsPush_returns (lp_called lp) answer;
               pushedSet = (if success then insert (lp_deviceId lp) (lp_pushedViaApns lp)
                            else lp_pushedViaApns lp);
               st1 = (if success
                      then st\<lparr>pendingRequests :=
                                AList.map_entry (lp_sessionId lp)
                                  (\<lambda>r. if continuation r = k
                                       then r\<lparr>pushedViaApns := insert (lp_deviceId lp) (pushedViaApns r)\<rparr>
                                       else r)
                                  (pendingRequests st)\<rparr>
                      else st)
           in push_loop (lp_payload lp) (lp_sessionId lp) k pushedSet (lp_position lp)
                (drop (lp_position lp) (deviceApnsTokens st1)) st1))"

text \<open>
  \<^verbatim>\<open>requestMobileInput\<close>. \<open>sid\<close> is the session id the call generates from the clock
  and \<^verbatim>\<open>Math.random\<close>. The result is the error thrown, or the promise the caller
  awaits. \<open>new_pending_request\<close> is the start of the promise's executor: the deadline
  timer is armed and the request is stored, with the \<^verbatim>\<open>resolve\<close> and \<^verbatim>\<open>reject\<close> of
  the new promise. The call of \<^verbatim>\<open>sendApnsPushToDisconnectedDevices\<close> at its end is not
  awaited: it runs up to its first \<^verbatim>\<open>await\<close>.
\<close>

definition new_pending_request ::
  "string \<Rightarrow> string \<Rightarrow> string list \<Rightarrow> input_type \<Rightarrow> int \<Rightarrow> string \<Rightarrow> nat
     \<Rightarrow> MonitoringManager \<Rightarrow> MonitoringManager" where
  "new_pending_request tag text opts ity effectiveTimeout sid now st =
     (let k = nextPromise st;
          st1 = st\<lparr>nextPromise := Suc k\<rparr>;
          tid = fst (setTimeout (InputTimeout sid k effectiveTimeout) st1);
          st2 = snd (setTimeout (InputTimeout sid k effectiveTimeout) st1);
          pendingRequest =
            \<lparr>requestId = sid, sessionId = sid, projectTag = tag, prompt = text,
             options = opts, inputType = ity, createdAt = now, continuation = k,
             timeoutId = tid, notifiedDevices = {}, pushedViaApns = {}\<rparr>
      in st2\<lparr>pendingRequests := AList.update sid pendingRequest (pendingRequests st2)\<rparr>)"

text \<open>\<^verbatim>\<open>timeoutMs ?? this.inputTimeoutMs\<close>, and the payload sent to the devices.\<close>

definition effective_timeout :: "MonitoringManager \<Rightarrow> int option \<Rightarrow> int" where
  "effective_timeout st timeoutMs = (case timeoutMs of None \<Rightarrow> inputTimeoutMs st | Some t \<Rightarrow> t)"

definition input_type_or_default :: "input_type option \<Rightarrow> input_type" where
  "input_type_or_default ity = (case ity of None \<Rightarrow> Numeric | Some i \<Rightarrow> i)"

definition request_payload ::
  "string \<Rightarrow> string \<Rightarrow> string list \<Rightarrow> input_type option \<Rightarrow> string \<Rightarrow> InputRequiredPayload" where
  "request_payload tag text opts ity sid =
     \<lparr>pl_sessionId = sid, pl_projectTag = tag, pl_prompt = text, pl_options = opts,
      pl_inputType = input_type_or_default ity\<rparr>"

definition requestMobileInput ::
  "string \<Rightarrow> string \<Rightarrow> string list \<Rightarrow> input_type option \<Rightarrow> int option
     \<Rightarrow> string \<Rightarrow> nat \<Rightarrow> MonitoringManager \<Rightarrow> (error + nat) \<times> MonitoringManager" where
  "requestMobileInput tag text opts ity timeoutMs sid now st =
     (let effectiveTimeout = effective_timeout st timeoutMs;
          connectedCount = getConnectedDeviceCount st;
          hasApnsTokens = (length (deviceApnsTokens st) > 0)
      in if connectedCount = 0 \<and> \<not> hasApnsTokens then (Inl NoRecipients, st)
         else
           (let st3 = new_pending_request tag text opts (input_type_or_default ity)
                        effectiveTimeout sid now st;
                payload = request_payload tag text opts ity sid;
                st4 = notifyInputRequired payload (Some sid) now st3;
                st5 = sendApnsPushToDisconnectedDevices payload sid (nextPromise st) st4
            in (Inr (nextPromise st), st5)))"

definition cancelInputRequest :: "string \<Rightarrow> MonitoringManager \<Rightarrow> bool \<times> MonitoringManager" where
  "cancelInputRequest sid st =
     (case map_of (pendingRequests st) sid of
        Some pendingRequest \<Rightarrow>
          (let st1 = clearTimeout (timeoutId pendingRequest) st;
               st2 = st1\<lparr>pendingRequests := AList.delete sid (pendingRequests st1)\<rparr>
           in (True, emit (Reject (continuation pendingRequest) Cancelled) st2))
      | None \<Rightarrow> (False, st))"

definition notifyTaskComplete ::
  "string \<Rightarrow> string \<Rightarrow> string option \<Rightarrow> nat \<Rightarrow> MonitoringManager \<Rightarrow> MonitoringManager" where
  "notifyTaskComplete sid tag summary now st =
     foldl (\<lambda>s entry. if readyState s (ws (snd entry)) = OPEN
                       then sendMessage (ws (snd entry)) (task_complete now sid tag summary) s
                       else s)
       st (clients st)"

subsection \<open>Shutdown\<close>

definition shutdown :: "MonitoringManager \<Rightarrow> MonitoringManager" where
  "shutdown st =
     (let st1 = (if heartbeatInterval st then st\<lparr>heartbeatInterval := False\<rparr> else st);
          st2 = foldl (\<lambda>s entry. if readyState s (ws (snd entry)) = OPEN
                                  then ws_close (ws (snd entry)) (Some (1001, ''Server shutting down'')) s
                                  else s)
                  st1 (clients st1);
          st3 = st2\<lparr>clients := []\<rparr>;
          st4 = (if wss st3 then (emit WssClose st3)\<lparr>wss := False\<rparr> else st3);
          st5 = (if apnsProvider st4 then (emit ApnsShutdown st4)\<lparr>apnsProvider := False\<rparr> else st4);
          st6 = foldl (\<lambda>s entry. clearTimeout (timeoutId (snd entry)) s) st5 (pendingRequests st5)
      in st6\<lparr>pendingRequests := []\<rparr>)"

subsection \<open>The events of the runtime\<close>

text \<open>
  What the event loop hands to the manager, one event in a turn: the calls of its
  public methods (by the server at start-up and shutdown, and by the handlers of the
  HTTP endpoints), a connection accepted by the WebSocket server, a message, a pong
  or the close of a socket, a tick of the heartbeat interval, a timer that is due, and
  the settling of a push that a loop waits for. The arguments are those of the method
  or listener, with the clock where the code reads it.
\<close>

datatype event =
    Initialize Config bool
  | Connection nat "string option" "string option" "string option" nat
  | Message nat "incoming option" nat
  | Pong nat nat
  | SocketClosed nat
  | HeartbeatTick
  | TimerFired nat
  | ApnsSettled nat "string + string list"
  | RequestMobileInput string string "string list" "input_type option" "int option" string nat
  | CancelInputRequest string
  | NotifyInputRequired InputRequiredPayload nat
  | NotifyTaskComplete string string "string option" nat
  | Shutdown

text \<open>
  The device id that the listeners of the socket \<open>w\<close> close over, while the socket can
  still emit events.
\<close>

definition listener :: "MonitoringManager \<Rightarrow> nat \<Rightarrow> string option" where
  "listener st w = (if readyState st w = CLOSED then None else map_of (listeners st) w)"

text \<open>
  An event that cannot happen leaves the state as it is: the server accepts a
  connection, on a socket of its own, only while it exists (and it exists only once the
  configuration is set, \<open>reachable_configured\<close> below, so that \<^verbatim>\<open>handleConnection\<close> does
  not throw); a socket emits events
  only to the listeners installed on it, and none once it is closed; the heartbeat
  ticks while its interval is set. A socket is open when the connection listener runs
  and closed when its close listener runs.
\<close>

fun handle :: "event \<Rightarrow> MonitoringManager \<Rightarrow> MonitoringManager" where
  "handle (Initialize cfg created) st = initialize cfg created st"
| "handle (Connection w qId qName qToken now) st =
     (if wss st \<and> map_of (listeners st) w = None
      then (case handleConnection w qId qName qToken now (accept w st) of
              Inl e \<Rightarrow> st
            | Inr st' \<Rightarrow> st')
      else st)"
| "handle (Message w parsed now) st =
     (case listener st w of None \<Rightarrow> st | Some dev \<Rightarrow> on_message dev parsed now st)"
| "handle (Pong w now) st =
     (case listener st w of None \<Rightarrow> st | Some dev \<Rightarrow> on_pong dev now st)"
| "handle (SocketClosed w) st =
     (case listener st w of
        None \<Rightarrow> st
      | Some dev \<Rightarrow> on_close dev (st\<lparr>readyState := (readyState st)(w := CLOSED)\<rparr>))"
| "handle HeartbeatTick st = (if heartbeatInterval st then checkHeartbeats st else st)"
| "handle (TimerFired t) st = fire_timer t st"
| "handle (ApnsSettled k answer) st = sendApnsPush_settled k answer st"
| "handle (RequestMobileInput tag text opts ity timeoutMs sid now) st =
     snd (requestMobileInput tag text opts ity timeoutMs sid now st)"
| "handle (CancelInputRequest sid) st = snd (cancelInputRequest sid st)"
| "handle (NotifyInputRequired payload now) st = notifyInputRequired payload None now st"
| "handle (NotifyTaskComplete sid tag summary now) st = notifyTaskComplete sid tag summary now st"
| "handle Shutdown st = shutdown st"

text \<open>The state after a sequence of events, from the manager as it is created.\<close>

definition run :: "event list \<Rightarrow> MonitoringManager" where
  "run evs = foldl (\<lambda>st ev. handle ev st) new_manager evs"

subsection \<open>The blocking endpoint\<close>

text \<open>
  How a promise was settled: the first \<^verbatim>\<open>resolve\<close> or \<^verbatim>\<open>reject\<close> of it in the
  trace (a promise ignores later ones), \<open>None\<close> while the caller is still waiting.
\<close>

fun settlement :: "effect list \<Rightarrow> nat \<Rightarrow> (error + string) option" where
  "settlement [] k = None"
| "settlement (Resolve j r # es) k = (if j = k then Some (Inr r) else settlement es k)"
| "settlement (Reject j e # es) k = (if j = k then Some (Inl e) else settlement es k)"
| "settlement (_ # es) k = settlement es k"

text \<open>All the calls of \<^verbatim>\<open>resolve\<close> and \<^verbatim>\<open>reject\<close> of the promise \<open>k\<close>, in order.\<close>

fun settles :: "nat \<Rightarrow> effect \<Rightarrow> bool" where
  "settles k (Resolve j r) = (j = k)"
| "settles k (Reject j e) = (j = k)"
| "settles k _ = False"

definition settlings :: "nat \<Rightarrow> effect list \<Rightarrow> effect list" where
  "settlings k es = filter (settles k) es"

text \<open>
  The body of \<^verbatim>\<open>POST /input-request\<close>. The request body, as the handler reads it:
  a missing field is \<open>None\<close>.
\<close>

record InputRequestPayload =
  rq_project_tag :: "string option"
  rq_prompt :: "string option"
  rq_options :: "string list option"
  rq_input_type :: "input_type option"
  rq_timeout_seconds :: "int option"

datatype http_error = MissingPrompt | Failed error

datatype http_response =
    InputRequestResponse string string int
  | InputRequestErrorResponse nat http_error nat

fun response :: "http_response \<Rightarrow> string option" where
  "response (InputRequestResponse r by ms) = Some r"
| "response (InputRequestErrorResponse code e n) = None"


fun response_time_ms :: "http_response \<Rightarrow> int option" where
  "response_time_ms (InputRequestResponse r by ms) = Some ms"
| "response_time_ms (InputRequestErrorResponse code e n) = None"

text \<open>The \<^verbatim>\<open>catch\<close> of the handler: 504 for a timeout, 503 otherwise.\<close>

definition failure_response :: "error \<Rightarrow> MonitoringManager \<Rightarrow> http_response" where
  "failure_response e st =
     InputRequestErrorResponse (case e of TimedOut ms \<Rightarrow> 504 | _ \<Rightarrow> 503) (Failed e)
       (getConnectedDeviceCount st)"

text \<open>
  The handler up to its \<^verbatim>\<open>await\<close>: it answers at once (\<open>Inl\<close>) or waits for a
  promise (\<open>Inr\<close>).
\<close>

definition input_request_begin ::
  "InputRequestPayload \<Rightarrow> string \<Rightarrow> nat \<Rightarrow> MonitoringManager
     \<Rightarrow> (http_response + nat) \<times> MonitoringManager" where
  "input_request_begin body sid now st =
     (if \<not> truthy (rq_prompt body)
      then (Inl (InputRequestErrorResponse 400 MissingPrompt (getConnectedDeviceCount st)), st)
      else
        (let tag = or_default (rq_project_tag body) ''unknown'';
             opts = (case rq_options body of None \<Rightarrow> [] | Some os \<Rightarrow> os);
             ity = (case rq_input_type body of
                      Some i \<Rightarrow> i
                    | None \<Rightarrow> if length opts > 0 then Numeric else FreeText);
             timeoutMs = (case rq_timeout_seconds body of
                            None \<Rightarrow> None
                          | Some s \<Rightarrow> if s \<noteq> 0 then Some (s * 1000) else None)
         in case requestMobileInput tag (or_default (rq_prompt body) []) opts (Some ity)
                   timeoutMs sid now st of
              (Inl e, st1) \<Rightarrow> (Inl (failure_response e st1), st1)
            | (Inr k, st1) \<Rightarrow> (Inr k, st1)))"

text \<open>
  The handler after its \<^verbatim>\<open>await\<close> of the promise \<open>k\<close>: \<open>started\<close> is the clock at
  the start of the handler, \<open>now\<close> the clock when the promise is settled. \<open>None\<close> while
  the promise is not settled.
\<close>

definition input_request_end :: "nat \<Rightarrow> int \<Rightarrow> int \<Rightarrow> MonitoringManager \<Rightarrow> http_response option" where
  "input_request_end k started now st =
     (case settlement (trace st) k of
        None \<Rightarrow> None
      | Some (Inr userResponse) \<Rightarrow> Some (InputRequestResponse userResponse ''mobile'' (now - started))
      | Some (Inl e) \<Rightarrow> Some (failure_response e st))"

section \<open>Vocabulary of the properties\<close>

subsection \<open>Reading the trace\<close>

text \<open>The sockets closed or terminated, in order.\<close>

fun closes :: "effect list \<Rightarrow> nat list" where
  "closes [] = []"
| "closes (Close w reason # es) = w # closes es"
| "closes (Terminate w # es) = w # closes es"
| "closes (_ # es) = closes es"

text \<open>The requests for input written to the socket \<open>w\<close>, in order.\<close>

fun requests_sent :: "nat \<Rightarrow> effect list \<Rightarrow> InputRequiredPayload list" where
  "requests_sent w [] = []"
| "requests_sent w (Send w' (input_required t payload) # es) =
     (if w' = w then payload # requests_sent w es else requests_sent w es)"
| "requests_sent w (_ # es) = requests_sent w es"

text \<open>The pushes handed to the provider, in order: the token and the payload.\<close>

fun pushes :: "effect list \<Rightarrow> (string \<times> InputRequiredPayload) list" where
  "pushes [] = []"
| "pushes (ApnsSend token payload # es) = (token, payload) # pushes es"
| "pushes (_ # es) = pushes es"

fun is_delivery :: "effect \<Rightarrow> bool" where
  "is_delivery (Send w m) = True"
| "is_delivery (ApnsSend t p) = True"
| "is_delivery _ = False"

subsection \<open>The registry\<close>

text \<open>
  The live channels of a device identifier: the open sockets whose listeners serve it.
\<close>

definition live_channels :: "MonitoringManager \<Rightarrow> string \<Rightarrow> nat list" where
  "live_channels st dev =
     map fst (filter (\<lambda>entry. snd entry = dev \<and> readyState st (fst entry) = OPEN) (listeners st))"

text \<open>The socket a new connection of \<open>dev\<close> replaces, when it is still open.\<close>

definition closing :: "MonitoringManager \<Rightarrow> string \<Rightarrow> nat list" where
  "closing st dev =
     (case map_of (clients st) dev of
        None \<Rightarrow> []
      | Some ex \<Rightarrow> if readyState st (ws ex) = OPEN then [ws ex] else [])"

subsection \<open>The table of pending requests\<close>

text \<open>A table entry once \<open>dev\<close> is in its set of notified devices.\<close>

definition mark_notified :: "string \<Rightarrow> string \<times> PendingInputRequest \<Rightarrow> string \<times> PendingInputRequest" where
  "mark_notified dev entry =
     (fst entry, (snd entry)\<lparr>notifiedDevices := insert dev (notifiedDevices (snd entry))\<rparr>)"

text \<open>The frames that offer to \<open>dev\<close>, on the socket \<open>w\<close>, the requests it was not sent.\<close>

definition resent :: "string \<Rightarrow> nat \<Rightarrow> nat \<Rightarrow> (string \<times> PendingInputRequest) list \<Rightarrow> effect list" where
  "resent dev w now table =
     map (\<lambda>entry. Send w (input_required now (payload_of (snd entry))))
       (filter (\<lambda>entry. dev \<notin> notifiedDevices (snd entry)) table)"

text \<open>
  A request without its two tracking sets, and the relation between the states before
  and after a delivery: only the tracking sets, the suspended push loops and the trace
  differ, and the trace has grown by frames and pushes.
\<close>

definition core :: "PendingInputRequest \<Rightarrow> PendingInputRequest" where
  "core r = r\<lparr>notifiedDevices := {}, pushedViaApns := {}\<rparr>"

definition cores :: "(string \<times> PendingInputRequest) list \<Rightarrow> (string \<times> PendingInputRequest) list" where
  "cores table = map (\<lambda>entry. (fst entry, core (snd entry))) table"

definition delivers :: "MonitoringManager \<Rightarrow> MonitoringManager \<Rightarrow> bool" where
  "delivers s s' \<longleftrightarrow>
     s' = s\<lparr>pendingRequests := pendingRequests s', pushLoops := pushLoops s', trace := trace s'\<rparr> \<and>
     cores (pendingRequests s') = cores (pendingRequests s) \<and>
     (\<exists>es. trace s' = trace s @ es \<and> list_all is_delivery es)"

subsection \<open>A push loop that is left alone\<close>

text \<open>
  \<open>s0\<close> is the state in which \<^verbatim>\<open>sendApnsPushToDisconnectedDevices\<close> is called for the
  request \<open>k\<close>, with push configured, and \<open>s\<close> a state after more than \<open>n\<close> entries of
  the token map have been passed, with no other event in between: the pushes handed to
  the provider so far are those for the entries passed whose device had no open socket
  in the registry, in the order of the map; when the loop has ended, for all entries.
\<close>

definition fanned :: "MonitoringManager \<Rightarrow> nat \<Rightarrow> InputRequiredPayload \<Rightarrow> nat \<Rightarrow> MonitoringManager \<Rightarrow> bool" where
  "fanned s0 k payload n s \<longleftrightarrow>
     delivers s0 s \<and>
     (case map_of (pushLoops s) k of
        None \<Rightarrow>
          pushes (trace s) =
            pushes (trace s0) @
            map (\<lambda>entry. (snd entry, payload))
              (filter (\<lambda>entry. \<not> isConnected s0 (fst entry)) (deviceApnsTokens s0))
      | Some lp \<Rightarrow>
          n < lp_position lp \<and> lp_position lp \<le> length (deviceApnsTokens s0) \<and>
          lp_payload lp = payload \<and>
          insert (lp_deviceId lp) (lp_pushedViaApns lp) \<subseteq>
            fst ` set (take (lp_position lp) (deviceApnsTokens s0)) \<and>
          pushes (trace s) =
            pushes (trace s0) @
            map (\<lambda>entry. (snd entry, payload))
              (filter (\<lambda>entry. \<not> isConnected s0 (fst entry))
                 (take (lp_position lp) (deviceApnsTokens s0))))"

subsection \<open>The server and its configuration\<close>

text \<open>While the WebSocket server exists, the configuration is set.\<close>

definition configured :: "MonitoringManager \<Rightarrow> bool" where
  "configured st \<longleftrightarrow> (wss st \<longrightarrow> config st \<noteq> None)"

subsection \<open>The ways a request ends\<close>

text \<open>
  An answer of a device (the response and the name of the device), the deadline
  timer of the request firing, and a call of \<^verbatim>\<open>cancelInputRequest\<close>.
\<close>

datatype completion = Answer string string | Expiry | Cancellation

definition complete :: "string \<Rightarrow> nat \<Rightarrow> completion \<Rightarrow> MonitoringManager \<Rightarrow> MonitoringManager" where
  "complete sid tid ev st =
     (case ev of
        Answer r name \<Rightarrow> handleInputResponse sid r name st
      | Expiry \<Rightarrow> fire_timer tid st
      | Cancellation \<Rightarrow> snd (cancelInputRequest sid st))"

text \<open>How each of them settles the promise \<open>k\<close> of a request with timeout \<open>ms\<close>.\<close>

definition outcome :: "nat \<Rightarrow> int \<Rightarrow> completion \<Rightarrow> effect" where
  "outcome k ms ev =
     (case ev of
        Answer r name \<Rightarrow> Resolve k r
      | Expiry \<Rightarrow> Reject k (TimedOut ms)
      | Cancellation \<Rightarrow> Reject k Cancelled)"

subsection \<open>Consistency of the timers, the table and the promises\<close>

text \<open>The promises that the armed deadline timers will reject.\<close>

fun promises :: "(nat \<times> timer) list \<Rightarrow> nat list" where
  "promises [] = []"
| "promises ((t, InputTimeout sid k ms) # ts) = k # promises ts"
| "promises ((t, SessionTimeout dev) # ts) = promises ts"

fun settled_below :: "nat \<Rightarrow> effect \<Rightarrow> bool" where
  "settled_below n (Resolve k r) = (k < n)"
| "settled_below n (Reject k e) = (k < n)"
| "settled_below n _ = True"

fun unsettling :: "effect \<Rightarrow> bool" where
  "unsettling (Resolve k r) = False"
| "unsettling (Reject k e) = False"
| "unsettling _ = True"

text \<open>
  An armed timer has a reference the runtime has given out; a deadline timer holds a
  promise that exists and is not settled.
\<close>

definition timer_ok :: "MonitoringManager \<Rightarrow> nat \<times> timer \<Rightarrow> bool" where
  "timer_ok st entry =
     (fst entry < nextTimer st \<and>
      (case snd entry of
         InputTimeout sid k ms \<Rightarrow> k < nextPromise st \<and> settlings k (trace st) = []
       | SessionTimeout dev \<Rightarrow> True))"

text \<open>The deadline timer of a stored request is armed, for its key and its promise.\<close>

definition pending_ok :: "MonitoringManager \<Rightarrow> string \<times> PendingInputRequest \<Rightarrow> bool" where
  "pending_ok st entry =
     (case map_of (timers st) (timeoutId (snd entry)) of
        None \<Rightarrow> False
      | Some cb \<Rightarrow>
          (case cb of
             InputTimeout sid k ms \<Rightarrow> sid = fst entry \<and> k = continuation (snd entry)
           | SessionTimeout dev \<Rightarrow> False))"

text \<open>
  The maps have one entry for a key, the timers and the stored requests are as above,
  no two armed timers hold the same promise, and only promises that exist are settled.
\<close>

definition consistent :: "MonitoringManager \<Rightarrow> bool" where
  "consistent st \<longleftrightarrow>
     distinct (map fst (clients st)) \<and> distinct (map fst (pendingRequests st)) \<and>
     distinct (map fst (deviceApnsTokens st)) \<and> distinct (map fst (timers st)) \<and>
     list_all (timer_ok st) (timers st) \<and> distinct (promises (timers st)) \<and>
     list_all (pending_ok st) (pendingRequests st) \<and>
     list_all (settled_below (nextPromise st)) (trace st)"

text \<open>
  A step that settles no promise and leaves the timers alone: the stored requests keep
  their keys, timers and promises, and the registry and the token map keep one entry
  for a key.
\<close>

definition link :: "string \<times> PendingInputRequest \<Rightarrow> string \<times> nat \<times> nat" where
  "link entry = (fst entry, timeoutId (snd entry), continuation (snd entry))"

definition quiet :: "MonitoringManager \<Rightarrow> MonitoringManager \<Rightarrow> bool" where
  "quiet s s' \<longleftrightarrow>
     timers s' = timers s \<and> nextTimer s' = nextTimer s \<and> nextPromise s' = nextPromise s \<and>
     map link (pendingRequests s') = map link (pendingRequests s) \<and>
     (\<exists>es. trace s' = trace s @ es \<and> list_all unsettling es) \<and>
     (distinct (map fst (clients s)) \<longrightarrow> distinct (map fst (clients s'))) \<and>
     (distinct (map fst (deviceApnsTokens s)) \<longrightarrow> distinct (map fst (deviceApnsTokens s')))"

text \<open>
  The states the manager can be in: it starts as \<open>new_manager\<close>, and every event takes
  it from one state to the next.
\<close>

inductive reachable :: "MonitoringManager \<Rightarrow> bool" where
  created: "reachable new_manager"
| handled: "reachable st \<Longrightarrow> reachable (handle ev st)"

section \<open>A scenario\<close>

text \<open>
  One listener with push configured. A phone connects on socket 1 (\<open>demo_live\<close>), then
  input is requested with three options and a deadline of two seconds
  (\<open>demo_waiting\<close>).
\<close>

definition demo_config :: Config where
  "demo_config =
     \<lparr>listener_id = ''desk'', listener_friendly_name = ''Desk'',
      monitoring =
        Some \<lparr>input_timeout_minutes = 30,
              apns = Some \<lparr>enabled = True, key_path = Some ''AuthKey.p8'', key_id = Some ''K1'',
                           team_id = Some ''T1'', bundle_id = Some ''app.traveller'',
                           production = None\<rparr>\<rparr>\<rparr>"

definition demo_phone :: ConnectedClient where
  "demo_phone =
     \<lparr>ws = 1,
      session = \<lparr>deviceId = ''phone'', deviceName = ''Phone'', apnsToken = Some ''tok-phone'',
                 startTime = 10, lastSeen = 10, status = Active, reconnectAttempts = 0\<rparr>,
      isAlive = True\<rparr>"

definition demo_live :: MonitoringManager where
  "demo_live =
     \<lparr>wss = True, clients = [(''phone'', demo_phone)], pendingRequests = [],
      heartbeatInterval = True, config = Some demo_config, apnsProvider = True,
      inputTimeoutMs = 1800000, deviceApnsTokens = [(''phone'', ''tok-phone'')],
      readyState = (\<lambda>_. CLOSED)(1 := OPEN), listeners = [(1, ''phone'')], timers = [],
      pushLoops = [], nextTimer = 0, nextPromise = 0,
      trace = [Send 1 (handshake_ack 10 \<lparr>listenerId = ''desk'', listenerName = ''Desk'',
                                          version = ''1.0.0'', activeSessions = 1\<rparr>)]\<rparr>"

definition demo_payload :: InputRequiredPayload where
  "demo_payload =
     \<lparr>pl_sessionId = ''input_1'', pl_projectTag = ''proj'', pl_prompt = ''Pick'',
      pl_options = [''1'', ''2'', ''3''], pl_inputType = Numeric\<rparr>"

definition demo_request :: PendingInputRequest where
  "demo_request =
     \<lparr>requestId = ''input_1'', sessionId = ''input_1'', projectTag = ''proj'', prompt = ''Pick'',
      options = [''1'', ''2'', ''3''], inputType = Numeric, createdAt = 20, continuation = 0,
      timeoutId = 0, notifiedDevices = {''phone''}, pushedViaApns = {}\<rparr>"

definition demo_waiting :: MonitoringManager where
  "demo_waiting =
     demo_live\<lparr>pendingRequests := [(''input_1'', demo_request)],
               timers := [(0, InputTimeout ''input_1'' 0 2000)], nextTimer := 1, nextPromise := 1,
               trace := trace demo_live @ [Send 1 (input_required 20 demo_payload)]\<rparr>"

text \<open>
  \<open>demo_lapsed\<close>: a tablet has connected as well, on socket 2, which has closed; the
  timer that ends its session is armed.
\<close>

definition demo_pad :: ConnectedClient where
  "demo_pad =
     \<lparr>ws = 2,
      session = \<lparr>deviceId = ''pad'', deviceName = ''Pad'', apnsToken = Some ''tok-pad'',
                 startTime = 12, lastSeen = 12, status = Disconnected, reconnectAttempts = 0\<rparr>,
      isAlive = True\<rparr>"

definition demo_lapsed :: MonitoringManager where
  "demo_lapsed =
     demo_live\<lparr>clients := [(''phone'', demo_phone), (''pad'', demo_pad)],
               deviceApnsTokens := [(''phone'', ''tok-phone''), (''pad'', ''tok-pad'')],
               readyState := (\<lambda>_. CLOSED)(1 := OPEN, 2 := CLOSED),
               listeners := [(1, ''phone''), (2, ''pad'')],
               timers := [(0, SessionTimeout ''pad'')], nextTimer := 1,
               trace := trace demo_live @
                 [Send 2 (handshake_ack 12 \<lparr>listenerId = ''desk'', listenerName = ''Desk'',
                                              version = ''1.0.0'', activeSessions = 2\<rparr>)]\<rparr>"

text \<open>
  \<open>demo_offline\<close>: a listener with no push configured, after a tablet has connected
  with its token and its socket has closed.
\<close>

definition demo_plain :: Config where
  "demo_plain = \<lparr>listener_id = ''desk'', listener_friendly_name = ''Desk'', monitoring = None\<rparr>"

definition demo_offline :: "event list" where
  "demo_offline =
     [Initialize demo_plain True,
      Connection 1 (Some ''pad'') (Some ''Pad'') (Some ''tok-pad'') 2,
      SocketClosed 1]"

text \<open>
  \<open>demo_stale\<close>: the phone connects on socket 1, which drops, so that the timer that
  ends its session is armed; the phone connects again on socket 2 and, just before that
  timer is due, on socket 3, which makes the manager close socket 2; socket 2 closes;
  the timer fires.
\<close>

definition demo_stale :: "event list" where
  "demo_stale =
     [Initialize demo_config True,
      Connection 1 (Some ''phone'') (Some ''Phone'') (Some ''tok-phone'') 10,
      SocketClosed 1,
      Connection 2 (Some ''phone'') (Some ''Phone'') None 100000,
      Connection 3 (Some ''phone'') (Some ''Phone'') None 299990,
      SocketClosed 2,
      TimerFired 0]"

section \<open>Lemmas\<close>

subsection \<open>Association lists\<close>

lemma map_of_delete_same: "map_of (AList.delete k al) k = None"
  by (simp add: AList.delete_conv')

lemma map_entry_append_miss:
  "k \<notin> fst ` set ys \<Longrightarrow> AList.map_entry k f (ys @ (k, v) # xs) = ys @ (k, f v) # xs"
  by (induction ys) auto

lemma map_of_map_entry_other:
  "map_of (AList.map_entry k f table) k' =
     (if k' = k then map_option f (map_of table k) else map_of table k')"
  by (induction table) auto

lemma filter_update_key:
  assumes "distinct (map fst al)"
  shows "filter (\<lambda>entry. fst entry = k \<and> P entry) (AList.update k v al) =
           (if P (k, v) then [(k, v)] else [])"
  using assms by (induction al) (auto simp: filter_empty_conv image_iff)

lemma filter_key_at_most_one:
  assumes "distinct (map fst al)"
  shows "length (filter (\<lambda>entry. fst entry = k \<and> P entry) al) \<le> Suc 0"
  using assms by (induction al) (auto simp: filter_empty_conv image_iff)

subsection \<open>The trace\<close>

lemma closes_append: "closes (es @ fs) = closes es @ closes fs"
  by (induction es rule: closes.induct) simp_all

lemma closes_resent: "closes (resent dev w now table) = []"
  by (induction table) (auto simp: resent_def)

lemma requests_sent_append: "requests_sent w (es @ fs) = requests_sent w es @ requests_sent w fs"
  by (induction w es rule: requests_sent.induct) simp_all

lemma requests_sent_resent:
  "requests_sent w (resent dev w now table) =
     map (\<lambda>entry. payload_of (snd entry)) (filter (\<lambda>entry. dev \<notin> notifiedDevices (snd entry)) table)"
  by (induction table) (auto simp: resent_def)

lemma pushes_append: "pushes (es @ fs) = pushes es @ pushes fs"
  by (induction es rule: pushes.induct) simp_all

lemma pushes_resent: "pushes (resent dev w now table) = []"
  by (induction table) (auto simp: resent_def)

lemma pushes_ApnsSend:
  "pushes (map (\<lambda>entry. ApnsSend (snd entry) payload) xs) = map (\<lambda>entry. (snd entry, payload)) xs"
  by (induction xs) auto

lemma settlement_append:
  "settlement (es @ fs) k = (case settlement es k of None \<Rightarrow> settlement fs k | Some v \<Rightarrow> Some v)"
  by (induction es k rule: settlement.induct) auto

lemma settlement_deliveries: "list_all is_delivery es \<Longrightarrow> settlement es k = None"
  by (induction es k rule: settlement.induct) auto

lemma settlings_deliveries: "list_all is_delivery es \<Longrightarrow> settlings k es = []"
  unfolding settlings_def by (induction es) (auto elim: is_delivery.elims)

subsection \<open>Deliveries change the tracking sets and the trace only\<close>

lemma delivers_refl: "delivers s s"
  by (simp add: delivers_def)

lemma delivers_trans: "delivers s s' \<Longrightarrow> delivers s' s'' \<Longrightarrow> delivers s s''"
proof -
  assume a: "delivers s s'" and b: "delivers s' s''"
  have e1: "s' = s\<lparr>pendingRequests := pendingRequests s', pushLoops := pushLoops s', trace := trace s'\<rparr>"
    using a by (simp add: delivers_def)
  have e2: "s'' = s'\<lparr>pendingRequests := pendingRequests s'', pushLoops := pushLoops s'', trace := trace s''\<rparr>"
    using b by (simp add: delivers_def)
  have "s'' = (s\<lparr>pendingRequests := pendingRequests s', pushLoops := pushLoops s', trace := trace s'\<rparr>)
                \<lparr>pendingRequests := pendingRequests s'', pushLoops := pushLoops s'', trace := trace s''\<rparr>"
    using e1 e2 by simp
  then have eq: "s'' = s\<lparr>pendingRequests := pendingRequests s'', pushLoops := pushLoops s'', trace := trace s''\<rparr>"
    by simp
  obtain es where es: "trace s' = trace s @ es" "list_all is_delivery es"
    using a unfolding delivers_def by blast
  obtain fs where fs: "trace s'' = trace s' @ fs" "list_all is_delivery fs"
    using b unfolding delivers_def by blast
  have "trace s'' = trace s @ (es @ fs) \<and> list_all is_delivery (es @ fs)"
    using es fs by simp
  then have "\<exists>gs. trace s'' = trace s @ gs \<and> list_all is_delivery gs" by blast
  moreover have "cores (pendingRequests s'') = cores (pendingRequests s)"
    using a b by (simp add: delivers_def)
  ultimately show ?thesis
    unfolding delivers_def using eq by blast
qed

lemma delivers_foldl:
  assumes "\<And>s x. delivers s (f s x)"
  shows "delivers s (foldl f s xs)"
proof (induction xs arbitrary: s)
  case Nil
  show ?case by (simp add: delivers_refl)
next
  case (Cons x xs)
  show ?case
    using delivers_trans [OF assms [of s x] Cons.IH [of "f s x"]] by simp
qed

lemma cores_map_entry_notified:
  "cores (AList.map_entry k (\<lambda>r. r\<lparr>notifiedDevices := g r\<rparr>) table) = cores table"
  by (induction table) (auto simp: cores_def core_def)

lemma cores_map_entry_pushed:
  "cores (AList.map_entry k (\<lambda>r. r\<lparr>pushedViaApns := g r\<rparr>) table) = cores table"
  by (induction table) (auto simp: cores_def core_def)

lemma map_of_cores: "map_of (cores table) k = map_option core (map_of table k)"
  by (induction table) (auto simp: cores_def)

lemma delivers_sendMessage: "delivers s (sendMessage w m s)"
  unfolding delivers_def sendMessage_def emit_def
  by (auto intro: exI [of _ "[]"] exI [of _ "[Send w m]"])

lemma delivers_resend_request: "delivers s (resend_request dev w now s entry)"
  unfolding delivers_def resend_request_def sendMessage_def emit_def Let_def
  by (auto simp: cores_map_entry_notified intro: exI [of _ "[]"] exI [of _ "[Send w m]" for m])

lemma delivers_notify_client: "delivers s (notify_client m pending s entry)"
  unfolding delivers_def notify_client_def sendMessage_def emit_def Let_def
  by (auto simp: cores_map_entry_notified split: option.splits
      intro: exI [of _ "[]"] exI [of _ "[Send w m]" for w m])

lemma delivers_notifyInputRequired: "delivers s (notifyInputRequired payload pending now s)"
  unfolding notifyInputRequired_def by (rule delivers_foldl) (rule delivers_notify_client)

lemma delivers_resendPendingRequestsToDevice: "delivers s (resendPendingRequestsToDevice dev w now s)"
  unfolding resendPendingRequestsToDevice_def by (rule delivers_foldl) (rule delivers_resend_request)

lemma delivers_fields:
  assumes "delivers s s'"
  shows "wss s' = wss s" "clients s' = clients s" "heartbeatInterval s' = heartbeatInterval s"
    "config s' = config s" "apnsProvider s' = apnsProvider s" "inputTimeoutMs s' = inputTimeoutMs s"
    "deviceApnsTokens s' = deviceApnsTokens s" "readyState s' = readyState s" "timers s' = timers s"
    "nextTimer s' = nextTimer s" "nextPromise s' = nextPromise s" "listeners s' = listeners s"
proof -
  have eq: "s' = s\<lparr>pendingRequests := pendingRequests s', pushLoops := pushLoops s', trace := trace s'\<rparr>"
    using assms by (simp add: delivers_def)
  show "wss s' = wss s" by (subst eq) simp
  show "clients s' = clients s" by (subst eq) simp
  show "heartbeatInterval s' = heartbeatInterval s" by (subst eq) simp
  show "config s' = config s" by (subst eq) simp
  show "apnsProvider s' = apnsProvider s" by (subst eq) simp
  show "inputTimeoutMs s' = inputTimeoutMs s" by (subst eq) simp
  show "deviceApnsTokens s' = deviceApnsTokens s" by (subst eq) simp
  show "readyState s' = readyState s" by (subst eq) simp
  show "timers s' = timers s" by (subst eq) simp
  show "nextTimer s' = nextTimer s" by (subst eq) simp
  show "nextPromise s' = nextPromise s" by (subst eq) simp
  show "listeners s' = listeners s" by (subst eq) simp
qed

lemma delivers_pending:
  assumes "delivers s s'" and "map_of (pendingRequests s) k = Some r"
  shows "\<exists>r'. map_of (pendingRequests s') k = Some r' \<and> timeoutId r' = timeoutId r \<and>
           continuation r' = continuation r \<and> payload_of r' = payload_of r"
proof -
  have "map_option core (map_of (pendingRequests s') k) = map_option core (map_of (pendingRequests s) k)"
    using assms(1) by (simp add: delivers_def flip: map_of_cores)
  then obtain r' where r': "map_of (pendingRequests s') k = Some r'" "core r' = core r"
    using assms(2) by auto
  have "timeoutId (core r') = timeoutId (core r)" "continuation (core r') = continuation (core r)"
    "payload_of (core r') = payload_of (core r)"
    using r'(2) by simp_all
  then show ?thesis using r'(1) by (auto simp: core_def payload_of_def)
qed

lemma delivers_settlement:
  assumes "delivers s s'"
  shows "settlement (trace s') k = settlement (trace s) k"
  using assms unfolding delivers_def
  by (auto simp: settlement_append settlement_deliveries split: option.splits)

lemma delivers_settlings:
  assumes "delivers s s'"
  shows "settlings k (trace s') = settlings k (trace s)"
proof -
  obtain es where "trace s' = trace s @ es" "list_all is_delivery es"
    using assms unfolding delivers_def by auto
  then show ?thesis using settlings_deliveries [of es k] by (simp add: settlings_def)
qed

lemma isConnected_delivers: "delivers s s' \<Longrightarrow> isConnected s' dev = isConnected s dev"
  using delivers_fields(2,8) [of s s'] by (simp add: isConnected_def split: option.splits)

lemma has_bundle_id_delivers: "delivers s s' \<Longrightarrow> has_bundle_id s' = has_bundle_id s"
  using delivers_fields(4) [of s s'] by (simp add: has_bundle_id_def)

subsection \<open>The loops\<close>

lemma mark_notified_id:
  "dev \<in> notifiedDevices (snd entry) \<Longrightarrow> mark_notified dev entry = entry"
  by (simp add: mark_notified_def insert_absorb)

lemma resend_request_step:
  assumes "pendingRequests st = ys @ entry # xs" and "fst entry \<notin> fst ` set ys"
  shows "resend_request dev w now st entry =
           st\<lparr>pendingRequests := ys @ mark_notified dev entry # xs,
              trace := trace st @ (if readyState st w = OPEN then resent dev w now [entry] else [])\<rparr>"
proof (cases "dev \<in> notifiedDevices (snd entry)")
  case True
  then show ?thesis
    using assms by (simp add: resend_request_def resent_def mark_notified_id)
next
  case False
  obtain k r where e: "entry = (k, r)" by (cases entry)
  show ?thesis
    using False assms unfolding e
    by (simp add: resend_request_def resent_def mark_notified_def sendMessage_def emit_def
          map_entry_append_miss)
qed

lemma resend_loop:
  assumes "pendingRequests st = ys @ xs" and "distinct (map fst (ys @ xs))"
  shows "foldl (resend_request dev w now) st xs =
           st\<lparr>pendingRequests := ys @ map (mark_notified dev) xs,
              trace := trace st @ (if readyState st w = OPEN then resent dev w now xs else [])\<rparr>"
  using assms
proof (induction xs arbitrary: st ys)
  case Nil
  then show ?case by (simp add: resent_def)
next
  case (Cons x xs)
  let ?st1 = "resend_request dev w now st x"
  have miss: "fst x \<notin> fst ` set ys" using Cons.prems(2) by auto
  have st1: "?st1 = st\<lparr>pendingRequests := ys @ mark_notified dev x # xs,
              trace := trace st @ (if readyState st w = OPEN then resent dev w now [x] else [])\<rparr>"
    by (rule resend_request_step [OF Cons.prems(1) miss])
  have p1: "pendingRequests ?st1 = (ys @ [mark_notified dev x]) @ xs"
    by (simp add: st1)
  have d1: "distinct (map fst ((ys @ [mark_notified dev x]) @ xs))"
    using Cons.prems(2) by (simp add: mark_notified_def)
  have "foldl (resend_request dev w now) st (x # xs) = foldl (resend_request dev w now) ?st1 xs"
    by simp
  also have "\<dots> = ?st1\<lparr>pendingRequests := (ys @ [mark_notified dev x]) @ map (mark_notified dev) xs,
              trace := trace ?st1 @ (if readyState ?st1 w = OPEN then resent dev w now xs else [])\<rparr>"
    by (rule Cons.IH [OF p1 d1])
  also have "\<dots> = st\<lparr>pendingRequests := ys @ map (mark_notified dev) (x # xs),
              trace := trace st @ (if readyState st w = OPEN then resent dev w now (x # xs) else [])\<rparr>"
    by (simp add: st1 resent_def)
  finally show ?case .
qed

lemma resendPendingRequestsToDevice_eq:
  assumes "distinct (map fst (pendingRequests st))"
  shows "resendPendingRequestsToDevice dev w now st =
           st\<lparr>pendingRequests := map (mark_notified dev) (pendingRequests st),
              trace := trace st @
                (if readyState st w = OPEN then resent dev w now (pendingRequests st) else [])\<rparr>"
  using resend_loop [of st "[]" "pendingRequests st" dev w now] assms
  by (simp add: resendPendingRequestsToDevice_def)

lemma resend_loop_trace:
  "trace (foldl (resend_request dev w now) st xs) =
     trace st @ (if readyState st w = OPEN then resent dev w now xs else [])"
proof (induction xs arbitrary: st)
  case Nil
  show ?case by (simp add: resent_def)
next
  case (Cons x xs)
  have r: "readyState (resend_request dev w now st x) = readyState st"
    using delivers_fields(8) [OF delivers_resend_request] .
  have t: "trace (resend_request dev w now st x) =
             trace st @ (if readyState st w = OPEN then resent dev w now [x] else [])"
    by (simp add: resend_request_def sendMessage_def emit_def resent_def Let_def)
  show ?case
    by (simp add: Cons.IH r t resent_def)
qed

lemma resendPendingRequestsToDevice_trace:
  "trace (resendPendingRequestsToDevice dev w now st) =
     trace st @ (if readyState st w = OPEN then resent dev w now (pendingRequests st) else [])"
  by (simp add: resendPendingRequestsToDevice_def resend_loop_trace)

lemmas resend_fields = delivers_fields [OF delivers_resendPendingRequestsToDevice]

lemma notify_nobody:
  assumes "\<forall>entry\<in>set xs. readyState s (ws (snd entry)) \<noteq> OPEN"
  shows "foldl (notify_client m pending) s xs = s"
  using assms by (induction xs) (auto simp: notify_client_def)

lemma notifyInputRequired_nobody:
  assumes "getConnectedDeviceCount st = 0"
  shows "notifyInputRequired payload pending now st = st"
proof -
  have "\<forall>entry\<in>set (clients st). readyState st (ws (snd entry)) \<noteq> OPEN"
    using assms by (auto simp: getConnectedDeviceCount_def filter_empty_conv)
  then show ?thesis unfolding notifyInputRequired_def by (rule notify_nobody)
qed

lemma notify_client_pushes: "pushes (trace (notify_client m pending s entry)) = pushes (trace s)"
  by (auto simp: notify_client_def sendMessage_def emit_def pushes_append Let_def split: option.splits)

lemma notify_loop_pushes: "pushes (trace (foldl (notify_client m pending) s xs)) = pushes (trace s)"
  by (induction xs arbitrary: s) (simp_all add: notify_client_pushes)

lemma sendApnsPush_returns_iff: "sendApnsPush_returns called answer \<longleftrightarrow> called \<and> answer = Inr []"
  by (auto simp: sendApnsPush_returns_def split: sum.splits)

lemma delivers_sendApnsPush: "delivers s (snd (sendApnsPush token payload s))"
  unfolding delivers_def sendApnsPush_def emit_def
  by (auto intro: exI [of _ "[]"] exI [of _ "[ApnsSend token payload]"])

lemma delivers_loops: "delivers s (s\<lparr>pushLoops := loops\<rparr>)"
  unfolding delivers_def by simp

lemma delivers_push_loop: "delivers s (push_loop payload sid k pushedSet i entries s)"
proof (induction entries arbitrary: i)
  case Nil
  show ?case by (simp add: delivers_loops)
next
  case (Cons entry entries)
  show ?case
  proof (cases "\<not> isConnected s (fst entry) \<and> fst entry \<notin> pushedSet")
    case True
    obtain called s1 where c: "sendApnsPush (snd entry) payload s = (called, s1)"
      by (cases "sendApnsPush (snd entry) payload s")
    have "delivers s s1" using delivers_sendApnsPush [of s "snd entry" payload] c by simp
    then show ?thesis
      using True c by (auto intro: delivers_trans delivers_loops)
  next
    case False
    then show ?thesis using Cons.IH [of "Suc i"] by auto
  qed
qed

lemma delivers_sendApnsPushToDisconnectedDevices:
  "delivers s (sendApnsPushToDisconnectedDevices payload sid k s)"
  unfolding sendApnsPushToDisconnectedDevices_def
  by (simp add: delivers_refl delivers_push_loop)

lemma cores_map_entry_pushed_if:
  "cores (AList.map_entry k (\<lambda>r. if P r then r\<lparr>pushedViaApns := g r\<rparr> else r) table) = cores table"
  by (induction table) (auto simp: cores_def core_def)

lemma delivers_pushed: 
  "delivers s (s\<lparr>pendingRequests :=
                   AList.map_entry sid (\<lambda>r. if P r then r\<lparr>pushedViaApns := g r\<rparr> else r)
                     (pendingRequests s)\<rparr>)"
  unfolding delivers_def by (simp add: cores_map_entry_pushed_if)

lemma delivers_sendApnsPush_settled: "delivers s (sendApnsPush_settled k answer s)"
  unfolding sendApnsPush_settled_def Let_def
  by (auto split: option.splits
      intro: delivers_refl delivers_push_loop delivers_trans [OF delivers_pushed delivers_push_loop])

lemma push_loop_step:
  assumes "apnsProvider s" "has_bundle_id s" "\<forall>entry \<in> set entries. fst entry \<notin> pushedSet"
  shows "(filter (\<lambda>entry. \<not> isConnected s (fst entry)) entries = [] \<and>
          push_loop payload sid k pushedSet i entries s = s\<lparr>pushLoops := AList.delete k (pushLoops s)\<rparr>) \<or>
         (\<exists>skipped entry rest.
            entries = skipped @ entry # rest \<and>
            filter (\<lambda>entry. \<not> isConnected s (fst entry)) skipped = [] \<and>
            \<not> isConnected s (fst entry) \<and>
            push_loop payload sid k pushedSet i entries s =
              (emit (ApnsSend (snd entry) payload) s)
                \<lparr>pushLoops :=
                   AList.update k
                     \<lparr>lp_payload = payload, lp_sessionId = sid, lp_pushedViaApns = pushedSet,
                      lp_position = Suc (i + length skipped), lp_deviceId = fst entry,
                      lp_called = True\<rparr>
                     (pushLoops s)\<rparr>)"
  using assms
proof (induction entries arbitrary: i)
  case Nil
  then show ?case by simp
next
  case (Cons e es)
  show ?case
  proof (cases "isConnected s (fst e)")
    case True
    have "\<forall>entry \<in> set es. fst entry \<notin> pushedSet" using Cons.prems(3) by simp
    from Cons.IH [OF Cons.prems(1,2) this, of "Suc i"]
    show ?thesis
    proof (elim disjE exE conjE)
      assume "filter (\<lambda>entry. \<not> isConnected s (fst entry)) es = []"
        "push_loop payload sid k pushedSet (Suc i) es s = s\<lparr>pushLoops := AList.delete k (pushLoops s)\<rparr>"
      then show ?thesis using True by simp
    next
      fix skipped entry rest
      assume a: "es = skipped @ entry # rest"
        "filter (\<lambda>entry. \<not> isConnected s (fst entry)) skipped = []"
        "\<not> isConnected s (fst entry)"
        "push_loop payload sid k pushedSet (Suc i) es s =
              (emit (ApnsSend (snd entry) payload) s)
                \<lparr>pushLoops :=
                   AList.update k
                     \<lparr>lp_payload = payload, lp_sessionId = sid, lp_pushedViaApns = pushedSet,
                      lp_position = Suc (Suc i + length skipped), lp_deviceId = fst entry,
                      lp_called = True\<rparr>
                     (pushLoops s)\<rparr>"
      have "e # es = (e # skipped) @ entry # rest" using a(1) by simp
      moreover have "filter (\<lambda>entry. \<not> isConnected s (fst entry)) (e # skipped) = []"
        using a(2) True by simp
      moreover have "push_loop payload sid k pushedSet i (e # es) s =
              (emit (ApnsSend (snd entry) payload) s)
                \<lparr>pushLoops :=
                   AList.update k
                     \<lparr>lp_payload = payload, lp_sessionId = sid, lp_pushedViaApns = pushedSet,
                      lp_position = Suc (i + length (e # skipped)), lp_deviceId = fst entry,
                      lp_called = True\<rparr>
                     (pushLoops s)\<rparr>"
        using a(4) True by simp
      ultimately show ?thesis using a(3) by blast
    qed
  next
    case False
    have "fst e \<notin> pushedSet" using Cons.prems(3) by simp
    then have "push_loop payload sid k pushedSet i (e # es) s =
              (emit (ApnsSend (snd e) payload) s)
                \<lparr>pushLoops :=
                   AList.update k
                     \<lparr>lp_payload = payload, lp_sessionId = sid, lp_pushedViaApns = pushedSet,
                      lp_position = Suc (i + length ([] :: (string \<times> string) list)), lp_deviceId = fst e,
                      lp_called = True\<rparr>
                     (pushLoops s)\<rparr>"
      using False Cons.prems(1,2) by (simp add: sendApnsPush_def emit_def)
    moreover have "e # es = [] @ e # es" by simp
    moreover have "filter (\<lambda>entry. \<not> isConnected s (fst entry)) [] = []" by simp
    ultimately show ?thesis using False by blast
  qed
qed

lemma take_Suc_skipped:
  assumes "xs = pre @ skipped @ entry # rest"
  shows "take (Suc (length pre + length skipped)) xs = pre @ skipped @ [entry]"
  using assms by simp

lemma fanned_start:
  assumes able: "apnsProvider s0" "has_bundle_id s0"
      and fresh: "(case map_of (pendingRequests s0) sid of None \<Rightarrow> {} | Some r \<Rightarrow> pushedViaApns r) = {}"
  shows "fanned s0 k payload 0 (sendApnsPushToDisconnectedDevices payload sid k s0)"
proof -
  let ?P = "\<lambda>entry. \<not> isConnected s0 (fst entry)"
  let ?r = "push_loop payload sid k {} 0 (deviceApnsTokens s0) s0"
  have r: "sendApnsPushToDisconnectedDevices payload sid k s0 = ?r"
    using able(1) fresh by (simp add: sendApnsPushToDisconnectedDevices_def)
  have d: "delivers s0 ?r" by (rule delivers_push_loop)
  have unseen: "\<forall>entry\<in>set (deviceApnsTokens s0). fst entry \<notin> {}" by simp
  from push_loop_step [OF able unseen, of payload sid k 0]
  show ?thesis
  proof (elim disjE exE conjE)
    assume "filter ?P (deviceApnsTokens s0) = []"
      "?r = s0\<lparr>pushLoops := AList.delete k (pushLoops s0)\<rparr>"
    then show ?thesis
      using d unfolding r fanned_def by (simp add: map_of_delete_same)
  next
    fix skipped entry rest
    assume a: "deviceApnsTokens s0 = skipped @ entry # rest" "filter ?P skipped = []" "?P entry"
      "?r = (emit (ApnsSend (snd entry) payload) s0)
                \<lparr>pushLoops :=
                   AList.update k
                     \<lparr>lp_payload = payload, lp_sessionId = sid, lp_pushedViaApns = {},
                      lp_position = Suc (0 + length skipped), lp_deviceId = fst entry,
                      lp_called = True\<rparr>
                     (pushLoops s0)\<rparr>"
    have t: "take (Suc (length skipped)) (deviceApnsTokens s0) = skipped @ [entry]"
      using a(1) by simp
    show ?thesis
      using d a(2,3) unfolding r fanned_def
      by (simp add: a(4) AList.update_conv' emit_def pushes_append t) (simp add: a(1))
  qed
qed

lemma fanned_step:
  assumes able: "apnsProvider s0" "has_bundle_id s0"
      and keys: "distinct (map fst (deviceApnsTokens s0))"
      and f: "fanned s0 k payload n s"
  shows "fanned s0 k payload (Suc n) (sendApnsPush_settled k answer s)"
proof (cases "map_of (pushLoops s) k")
  case None
  then show ?thesis using f by (simp add: sendApnsPush_settled_def fanned_def)
next
  case (Some lp)
  let ?P = "\<lambda>entry. \<not> isConnected s0 (fst entry)"
  let ?tokens = "deviceApnsTokens s0"
  let ?p = "lp_position lp"
  define ok where "ok = sendApnsPush_returns (lp_called lp) answer"
  define D where "D = (if ok then insert (lp_deviceId lp) (lp_pushedViaApns lp) else lp_pushedViaApns lp)"
  define s1 where "s1 =
            (if ok
             then s\<lparr>pendingRequests :=
                      AList.map_entry (lp_sessionId lp)
                        (\<lambda>r. if continuation r = k
                             then r\<lparr>pushedViaApns := insert (lp_deviceId lp) (pushedViaApns r)\<rparr>
                             else r)
                        (pendingRequests s)\<rparr>
             else s)"
  define r where "r = push_loop (lp_payload lp) (lp_sessionId lp) k D ?p (drop ?p ?tokens) s1"
  have d0: "delivers s0 s" using f by (simp add: fanned_def)
  have inv: "n < ?p" "?p \<le> length ?tokens" "lp_payload lp = payload"
    "insert (lp_deviceId lp) (lp_pushedViaApns lp) \<subseteq> fst ` set (take ?p ?tokens)"
    "pushes (trace s) = pushes (trace s0) @ map (\<lambda>entry. (snd entry, payload)) (filter ?P (take ?p ?tokens))"
    using f Some by (simp_all add: fanned_def)
  have d1: "delivers s s1" unfolding s1_def by (simp add: delivers_refl delivers_pushed)
  have d01: "delivers s0 s1" by (rule delivers_trans [OF d0 d1])
  have tk: "deviceApnsTokens s = ?tokens" by (rule delivers_fields(7) [OF d0])
  have tk1: "deviceApnsTokens s1 = ?tokens" by (rule delivers_fields(7) [OF d01])
  have able1: "apnsProvider s1" "has_bundle_id s1"
    using able delivers_fields(5) [OF d01] has_bundle_id_delivers [OF d01] by simp_all
  have conn: "isConnected s1 = isConnected s0"
    by (rule ext) (rule isConnected_delivers [OF d01])
  have tr1: "trace s1 = trace s" "pushLoops s1 = pushLoops s" unfolding s1_def by simp_all
  have res: "sendApnsPush_settled k answer s = r"
    using Some unfolding r_def D_def s1_def ok_def
    by (simp add: sendApnsPush_settled_def Let_def tk)
  have Dsub: "D \<subseteq> fst ` set (take ?p ?tokens)" using inv(4) unfolding D_def by auto
  have "distinct (map fst (take ?p ?tokens @ drop ?p ?tokens))" using keys by simp
  then have disj: "fst ` set (take ?p ?tokens) \<inter> fst ` set (drop ?p ?tokens) = {}"
    by (simp only: map_append distinct_append set_map)
  have unseen: "\<forall>entry \<in> set (drop ?p ?tokens). fst entry \<notin> D"
    using Dsub disj by blast
  have dr: "delivers s0 r" unfolding r_def by (rule delivers_trans [OF d01 delivers_push_loop])
  from push_loop_step [OF able1 unseen, of "lp_payload lp" "lp_sessionId lp" k ?p]
  show ?thesis
  proof (elim disjE exE conjE)
    assume a: "filter (\<lambda>entry. \<not> isConnected s1 (fst entry)) (drop ?p ?tokens) = []"
      "push_loop (lp_payload lp) (lp_sessionId lp) k D ?p (drop ?p ?tokens) s1 =
         s1\<lparr>pushLoops := AList.delete k (pushLoops s1)\<rparr>"
    have "filter ?P ?tokens = filter ?P (take ?p ?tokens @ drop ?p ?tokens)" by simp
    also have "\<dots> = filter ?P (take ?p ?tokens)"
      using a(1) unfolding conn by (simp only: filter_append) simp
    finally have all: "filter ?P ?tokens = filter ?P (take ?p ?tokens)" .
    have "map_of (pushLoops r) k = None" unfolding r_def a(2) by (simp add: map_of_delete_same)
    moreover have "trace r = trace s" unfolding r_def a(2) by (simp add: tr1)
    ultimately show ?thesis
      using dr inv(5) unfolding res fanned_def by (simp add: all)
  next
    fix skipped entry rest
    assume a: "drop ?p ?tokens = skipped @ entry # rest"
      "filter (\<lambda>entry. \<not> isConnected s1 (fst entry)) skipped = []"
      "\<not> isConnected s1 (fst entry)"
      "push_loop (lp_payload lp) (lp_sessionId lp) k D ?p (drop ?p ?tokens) s1 =
         (emit (ApnsSend (snd entry) (lp_payload lp)) s1)
                \<lparr>pushLoops :=
                   AList.update k
                     \<lparr>lp_payload = lp_payload lp, lp_sessionId = lp_sessionId lp, lp_pushedViaApns = D,
                      lp_position = Suc (?p + length skipped), lp_deviceId = fst entry,
                      lp_called = True\<rparr>
                     (pushLoops s1)\<rparr>"
    define lp' where "lp' = \<lparr>lp_payload = lp_payload lp, lp_sessionId = lp_sessionId lp, lp_pushedViaApns = D,
                      lp_position = Suc (?p + length skipped), lp_deviceId = fst entry,
                      lp_called = True\<rparr>"
    have whole: "?tokens = take ?p ?tokens @ skipped @ entry # rest"
      using a(1) by (metis append_take_drop_id)
    have len: "length (take ?p ?tokens) = ?p" using inv(2) by simp
    have t: "take (Suc (?p + length skipped)) ?tokens = take ?p ?tokens @ skipped @ [entry]"
      using take_Suc_skipped [OF whole] unfolding len .
    have "length (drop ?p ?tokens) = length skipped + Suc (length rest)"
      by (simp only: a(1)) simp
    then have bound: "lp_position lp' \<le> length ?tokens"
      using inv(2) unfolding lp'_def by simp
    have lp': "map_of (pushLoops r) k = Some lp'"
      unfolding r_def a(4) lp'_def by (simp add: AList.update_conv')
    have tr: "pushes (trace r) = pushes (trace s) @ [(snd entry, payload)]"
      unfolding r_def a(4) by (simp add: emit_def inv(3) tr1 pushes_append)
    have sub: "insert (lp_deviceId lp') (lp_pushedViaApns lp') \<subseteq> fst ` set (take (lp_position lp') ?tokens)"
      using Dsub unfolding lp'_def by (simp add: t) auto
    have fl: "filter ?P (take (lp_position lp') ?tokens) = filter ?P (take ?p ?tokens) @ [entry]"
      using a(2,3) unfolding conn lp'_def by (simp add: t)
    have more: "Suc n < lp_position lp'" "lp_payload lp' = payload"
      using inv(1,3) unfolding lp'_def by simp_all
    show ?thesis
      unfolding res fanned_def
      using dr lp' more bound sub by (simp add: tr inv(5) fl)
  qed
qed

lemma fanned_drain:
  assumes able: "apnsProvider s0" "has_bundle_id s0"
      and keys: "distinct (map fst (deviceApnsTokens s0))"
      and f: "fanned s0 k payload n s"
  shows "fanned s0 k payload (n + length answers)
           (foldl (\<lambda>st answer. sendApnsPush_settled k answer st) s answers)"
  using f
proof (induction answers arbitrary: n s)
  case Nil
  then show ?case by simp
next
  case (Cons a answers)
  have "fanned s0 k payload (Suc n) (sendApnsPush_settled k a s)"
    by (rule fanned_step [OF able keys Cons.prems])
  from Cons.IH [OF this] show ?case by simp
qed

lemma fanned_done:
  assumes "fanned s0 k payload n s" and "length (deviceApnsTokens s0) \<le> n"
  shows "pushes (trace s) =
           pushes (trace s0) @
           map (\<lambda>entry. (snd entry, payload))
             (filter (\<lambda>entry. \<not> isConnected s0 (fst entry)) (deviceApnsTokens s0))"
  using assms by (auto simp: fanned_def split: option.splits)

lemma notify_client_pushedViaApns:
  "map_option pushedViaApns (map_of (pendingRequests (notify_client m pending s entry)) key) =
     map_option pushedViaApns (map_of (pendingRequests s) key)"
  by (auto simp: notify_client_def sendMessage_def emit_def Let_def map_of_map_entry_other
      option.map_comp comp_def split: option.splits)

lemma notify_loop_pushedViaApns:
  "map_option pushedViaApns (map_of (pendingRequests (foldl (notify_client m pending) s xs)) key) =
     map_option pushedViaApns (map_of (pendingRequests s) key)"
  by (induction xs arbitrary: s) (simp_all add: notify_client_pushedViaApns)

subsection \<open>A connection\<close>

lemma handleConnection_Inr:
  assumes "config st = Some cfg"
  shows "\<exists>st'. handleConnection w qId qName qToken now st = Inr st'"
  using assms
  by (simp add: handleConnection_def Let_def resend_fields ws_close_def emit_def
        split: option.splits)

lemma handleConnection_clients:
  assumes "handleConnection w qId qName qToken now st = Inr st'"
  shows "\<exists>c. clients st' = AList.update (or_default qId ''unknown'') c (clients st) \<and> ws c = w"
  using assms
  by (auto simp: handleConnection_def Let_def resend_fields ws_close_def emit_def sendMessage_def
        split: option.splits if_splits)

lemma handleConnection_readyState:
  assumes "handleConnection w qId qName qToken now st = Inr st'"
  shows "readyState st' =
           (case map_of (clients st) (or_default qId ''unknown'') of
              None \<Rightarrow> readyState st
            | Some ex \<Rightarrow> if readyState st (ws ex) = OPEN then (readyState st)(ws ex := CLOSING)
                         else readyState st)"
  using assms
  by (auto simp: handleConnection_def Let_def resend_fields ws_close_def emit_def sendMessage_def
        split: option.splits if_splits)

lemma handleConnection_trace:
  assumes "handleConnection w qId qName qToken now st = Inr st'"
  shows "\<exists>ack. trace st' =
           trace st @ map (\<lambda>w'. Close w' None) (closing st (or_default qId ''unknown'')) @
             (if readyState st' w = OPEN
              then resent (or_default qId ''unknown'') w now (pendingRequests st) @
                     [Send w (handshake_ack now ack)]
              else [])"
  using assms
  by (auto simp: handleConnection_def Let_def resend_fields ws_close_def emit_def sendMessage_def
        resendPendingRequestsToDevice_trace closing_def
        split: option.splits if_splits)

lemma handleConnection_pending:
  assumes "handleConnection w qId qName qToken now st = Inr st'"
      and "distinct (map fst (pendingRequests st))"
  shows "pendingRequests st' = map (mark_notified (or_default qId ''unknown'')) (pendingRequests st)"
  using assms
  by (auto simp: handleConnection_def Let_def resend_fields ws_close_def emit_def sendMessage_def
        resendPendingRequestsToDevice_eq
        split: option.splits if_splits)

lemma handleConnection_tokens:
  assumes "handleConnection w qId qName qToken now st = Inr st'"
  shows "deviceApnsTokens st' =
           (case or_undefined qToken of
              None \<Rightarrow> deviceApnsTokens st
            | Some t \<Rightarrow> AList.update (or_default qId ''unknown'') t (deviceApnsTokens st))"
  using assms
  by (auto simp: handleConnection_def Let_def resend_fields ws_close_def emit_def sendMessage_def
        split: option.splits if_splits)

lemma handleConnection_pushes:
  assumes "handleConnection w qId qName qToken now st = Inr st'"
  shows "pushes (trace st') = pushes (trace st)"
proof -
  obtain ack where "trace st' =
           trace st @ map (\<lambda>w'. Close w' None) (closing st (or_default qId ''unknown'')) @
             (if readyState st' w = OPEN
              then resent (or_default qId ''unknown'') w now (pendingRequests st) @
                     [Send w (handshake_ack now ack)]
              else [])"
    using handleConnection_trace [OF assms] by blast
  moreover have "pushes (map (\<lambda>w'. Close w' None) (closing st (or_default qId ''unknown''))) = []"
    by (simp add: closing_def split: option.splits)
  ultimately show ?thesis by (simp add: pushes_append pushes_resent)
qed

subsection \<open>A request\<close>

lemma new_pending_request_fields:
  "wss (new_pending_request tag text opts ity eff sid now st) = wss st"
  "clients (new_pending_request tag text opts ity eff sid now st) = clients st"
  "config (new_pending_request tag text opts ity eff sid now st) = config st"
  "apnsProvider (new_pending_request tag text opts ity eff sid now st) = apnsProvider st"
  "deviceApnsTokens (new_pending_request tag text opts ity eff sid now st) = deviceApnsTokens st"
  "readyState (new_pending_request tag text opts ity eff sid now st) = readyState st"
  "trace (new_pending_request tag text opts ity eff sid now st) = trace st"
  "listeners (new_pending_request tag text opts ity eff sid now st) = listeners st"
  "pushLoops (new_pending_request tag text opts ity eff sid now st) = pushLoops st"
  "timers (new_pending_request tag text opts ity eff sid now st) =
     AList.update (nextTimer st) (InputTimeout sid (nextPromise st) eff) (timers st)"
  "nextTimer (new_pending_request tag text opts ity eff sid now st) = Suc (nextTimer st)"
  "nextPromise (new_pending_request tag text opts ity eff sid now st) = Suc (nextPromise st)"
  "pendingRequests (new_pending_request tag text opts ity eff sid now st) =
     AList.update sid
       \<lparr>requestId = sid, sessionId = sid, projectTag = tag, prompt = text,
        options = opts, inputType = ity, createdAt = now, continuation = nextPromise st,
        timeoutId = nextTimer st, notifiedDevices = {}, pushedViaApns = {}\<rparr>
       (pendingRequests st)"
  by (simp_all add: new_pending_request_def setTimeout_def Let_def)

lemma requestMobileInput_accepts:
  assumes "0 < getConnectedDeviceCount st \<or> deviceApnsTokens st \<noteq> []"
  shows "requestMobileInput tag text opts ity timeoutMs sid now st =
           (Inr (nextPromise st),
            sendApnsPushToDisconnectedDevices (request_payload tag text opts ity sid) sid (nextPromise st)
              (notifyInputRequired (request_payload tag text opts ity sid) (Some sid) now
                 (new_pending_request tag text opts (input_type_or_default ity)
                    (effective_timeout st timeoutMs) sid now st)))"
  using assms
  by (auto simp: requestMobileInput_def Let_def)

lemma requestMobileInput_delivers:
  assumes "0 < getConnectedDeviceCount st \<or> deviceApnsTokens st \<noteq> []"
  shows "delivers (new_pending_request tag text opts (input_type_or_default ity)
                    (effective_timeout st timeoutMs) sid now st)
           (snd (requestMobileInput tag text opts ity timeoutMs sid now st))"
  unfolding requestMobileInput_accepts [OF assms] snd_conv
  by (rule delivers_trans [OF delivers_notifyInputRequired delivers_sendApnsPushToDisconnectedDevices])

lemma fire_input_timeout:
  assumes "map_of (timers s) t = Some (InputTimeout sid k ms)"
  shows "fire_timer t s =
           s\<lparr>timers := AList.delete t (timers s),
             pendingRequests := AList.delete sid (pendingRequests s),
             trace := trace s @ [Reject k (TimedOut ms)]\<rparr>"
  using assms by (simp add: fire_timer_def emit_def)

lemma initializeApns_inputTimeoutMs:
  "inputTimeoutMs (initializeApns apnsConfig created st) = inputTimeoutMs st"
  by (cases apnsConfig) (simp_all add: initializeApns_def)

lemma initialize_inputTimeoutMs:
  "inputTimeoutMs (initialize cfg created st) =
     (case monitoring cfg of
        None \<Rightarrow> inputTimeoutMs st
      | Some m \<Rightarrow> if input_timeout_minutes m \<noteq> 0 then input_timeout_minutes m * 60 * 1000
                   else inputTimeoutMs st)"
  by (cases "monitoring cfg") (simp_all add: initialize_def Let_def initializeApns_inputTimeoutMs)

lemma complete_first:
  assumes p: "map_of (pendingRequests st) sid = Some p"
      and t: "map_of (timers st) (timeoutId p) = Some (InputTimeout sid (continuation p) ms)"
  shows "trace (complete sid (timeoutId p) ev st) = trace st @ [outcome (continuation p) ms ev]"
    and "map_of (pendingRequests (complete sid (timeoutId p) ev st)) sid = None"
    and "map_of (timers (complete sid (timeoutId p) ev st)) (timeoutId p) = None"
  using p t
  by (cases ev; simp add: complete_def outcome_def handleInputResponse_def fire_timer_def
        cancelInputRequest_def clearTimeout_def emit_def map_of_delete_same Let_def)+

lemma complete_noop:
  assumes "map_of (pendingRequests st) sid = None" and "map_of (timers st) tid = None"
  shows "complete sid tid ev st = st"
  using assms
  by (cases ev; simp add: complete_def handleInputResponse_def fire_timer_def cancelInputRequest_def)

lemma complete_noops:
  assumes "map_of (pendingRequests st) sid = None" and "map_of (timers st) tid = None"
  shows "foldl (\<lambda>s ev. complete sid tid ev s) st evs = st"
  using assms by (induction evs) (simp_all add: complete_noop)

lemma isConnected_new_pending_request:
  "isConnected (new_pending_request tag text opts ity eff sid now st) dev = isConnected st dev"
  by (simp add: isConnected_def new_pending_request_fields split: option.splits)

lemma has_bundle_id_new_pending_request:
  "has_bundle_id (new_pending_request tag text opts ity eff sid now st) = has_bundle_id st"
  by (simp add: has_bundle_id_def new_pending_request_fields)

lemma requestMobileInput_fans_out:
  assumes recipients: "0 < getConnectedDeviceCount st \<or> deviceApnsTokens st \<noteq> []"
      and able: "apnsProvider st" "has_bundle_id st"
      and keys: "distinct (map fst (deviceApnsTokens st))"
      and enough: "length (deviceApnsTokens st) \<le> length answers"
  shows "pushes (trace (foldl (\<lambda>s answer. sendApnsPush_settled (nextPromise st) answer s)
                          (snd (requestMobileInput tag text opts ity timeoutMs sid now st)) answers)) =
           pushes (trace st) @
           map (\<lambda>entry. (snd entry, request_payload tag text opts ity sid))
             (filter (\<lambda>entry. \<not> isConnected st (fst entry)) (deviceApnsTokens st))"
proof -
  let ?pl = "request_payload tag text opts ity sid"
  let ?k = "nextPromise st"
  let ?st3 = "new_pending_request tag text opts (input_type_or_default ity)
                (effective_timeout st timeoutMs) sid now st"
  let ?st4 = "notifyInputRequired ?pl (Some sid) now ?st3"
  let ?st5 = "sendApnsPushToDisconnectedDevices ?pl sid ?k ?st4"
  have d: "delivers ?st3 ?st4" by (rule delivers_notifyInputRequired)
  have tk: "deviceApnsTokens ?st4 = deviceApnsTokens st"
    by (simp add: delivers_fields(7) [OF d] new_pending_request_fields)
  have pr: "apnsProvider ?st4"
    using able(1) by (simp add: delivers_fields(5) [OF d] new_pending_request_fields)
  have bi: "has_bundle_id ?st4"
    using able(2) by (simp add: has_bundle_id_delivers [OF d] has_bundle_id_new_pending_request)
  have tr: "pushes (trace ?st4) = pushes (trace st)"
    by (simp add: notifyInputRequired_def notify_loop_pushes new_pending_request_fields)
  have conn: "isConnected ?st4 = isConnected st"
    by (rule ext) (simp add: isConnected_delivers [OF d] isConnected_new_pending_request)
  have "map_option pushedViaApns (map_of (pendingRequests ?st4) sid) = Some {}"
    by (simp add: notifyInputRequired_def notify_loop_pushedViaApns new_pending_request_fields
          AList.update_conv')
  then have fresh: "(case map_of (pendingRequests ?st4) sid of None \<Rightarrow> {} | Some r \<Rightarrow> pushedViaApns r) = {}"
    by (auto split: option.splits)
  have "fanned ?st4 ?k ?pl 0 ?st5" by (rule fanned_start [OF pr bi fresh])
  then have "fanned ?st4 ?k ?pl (0 + length answers)
               (foldl (\<lambda>s answer. sendApnsPush_settled ?k answer s) ?st5 answers)"
    using keys by (intro fanned_drain [OF pr bi]) (simp_all add: tk)
  then have "pushes (trace (foldl (\<lambda>s answer. sendApnsPush_settled ?k answer s) ?st5 answers)) =
               pushes (trace ?st4) @
               map (\<lambda>entry. (snd entry, ?pl))
                 (filter (\<lambda>entry. \<not> isConnected ?st4 (fst entry)) (deviceApnsTokens ?st4))"
    using enough by (intro fanned_done) (simp_all add: tk)
  then show ?thesis
    by (simp add: requestMobileInput_accepts [OF recipients] tr tk conn)
qed

lemma fire_session_timeout:
  assumes "map_of (timers s) t = Some (SessionTimeout d)"
      and "map_of (clients s) d = Some c" and "status (session c) = Disconnected"
  shows "fire_timer t s = s\<lparr>timers := AList.delete t (timers s), clients := AList.delete d (clients s)\<rparr>"
  using assms by (simp add: fire_timer_def)

lemma fire_timer_tokens: "deviceApnsTokens (fire_timer t s) = deviceApnsTokens s"
  by (simp add: fire_timer_def emit_def Let_def split: option.splits timer.splits)

subsection \<open>Quiet steps\<close>

lemma quiet_refl: "quiet s s"
  by (simp add: quiet_def)

lemma quiet_trans:
  assumes "quiet s s'" and "quiet s' s''"
  shows "quiet s s''"
proof -
  obtain es where es: "trace s' = trace s @ es" "list_all unsettling es"
    using assms(1) unfolding quiet_def by blast
  obtain fs where fs: "trace s'' = trace s' @ fs" "list_all unsettling fs"
    using assms(2) unfolding quiet_def by blast
  have "trace s'' = trace s @ (es @ fs) \<and> list_all unsettling (es @ fs)"
    using es fs by simp
  then have "\<exists>gs. trace s'' = trace s @ gs \<and> list_all unsettling gs" by blast
  then show ?thesis
    using assms unfolding quiet_def by simp
qed

lemma quiet_foldl:
  assumes "\<And>s x. quiet s (f s x)"
  shows "quiet s (foldl f s xs)"
proof (induction xs arbitrary: s)
  case Nil
  show ?case by (simp add: quiet_refl)
next
  case (Cons x xs)
  show ?case
    using quiet_trans [OF assms [of s x] Cons.IH [of "f s x"]] by simp
qed

lemma link_core: "link (fst entry, core (snd entry)) = link entry"
  by (simp add: link_def core_def)

lemma map_link_cores: "map link (cores table) = map link table"
  by (simp add: cores_def link_core comp_def)

lemma unsettling_delivery: "list_all is_delivery es \<Longrightarrow> list_all unsettling es"
  by (induction es) (auto elim: is_delivery.elims)

lemma delivers_quiet:
  assumes "delivers s s'"
  shows "quiet s s'"
proof -
  have "map link (cores (pendingRequests s')) = map link (cores (pendingRequests s))"
    using assms by (simp add: delivers_def)
  then have "map link (pendingRequests s') = map link (pendingRequests s)"
    by (simp add: map_link_cores)
  moreover have "\<exists>es. trace s' = trace s @ es \<and> list_all unsettling es"
    using assms unfolding delivers_def by (auto intro: unsettling_delivery)
  ultimately show ?thesis
    by (simp add: quiet_def delivers_fields [OF assms])
qed

lemma quiet_emit: "unsettling e \<Longrightarrow> quiet s (emit e s)"
  unfolding quiet_def emit_def by (auto intro: exI [of _ "[e]"])

lemma quiet_ws_close: "quiet s (ws_close w reason s)"
  unfolding quiet_def ws_close_def emit_def by (auto intro: exI [of _ "[Close w reason]"])

lemma quiet_ws_terminate: "quiet s (ws_terminate w s)"
  unfolding quiet_def ws_terminate_def emit_def by (auto intro: exI [of _ "[Terminate w]"])

lemma quiet_clients_map_entry: "quiet s (s\<lparr>clients := AList.map_entry k f (clients s)\<rparr>)"
  unfolding quiet_def by (auto simp: AList.distinct_map_entry)

lemma quiet_clients_update: "quiet s (s\<lparr>clients := AList.update k v (clients s)\<rparr>)"
  unfolding quiet_def by (auto simp: AList.distinct_update)

lemma quiet_tokens_update: "quiet s (s\<lparr>deviceApnsTokens := AList.update k v (deviceApnsTokens s)\<rparr>)"
  unfolding quiet_def by (auto simp: AList.distinct_update)

lemma quiet_accept: "quiet s (accept w s)"
  unfolding quiet_def accept_def by auto

lemma quiet_socket_closed: "quiet s (s\<lparr>readyState := r\<rparr>)"
  unfolding quiet_def by auto

lemma quiet_initializeApns: "quiet s (initializeApns a made s)"
  unfolding quiet_def initializeApns_def by (auto split: option.splits)

lemma quiet_initialize: "quiet s (initialize cfg made s)"
proof -
  let ?s1 = "s\<lparr>config := Some cfg\<rparr>"
  let ?s2 = "(case monitoring cfg of
                   None \<Rightarrow> ?s1
                 | Some m \<Rightarrow>
                     if input_timeout_minutes m \<noteq> 0
                     then ?s1\<lparr>inputTimeoutMs := input_timeout_minutes m * 60 * 1000\<rparr>
                     else ?s1)"
  let ?s3 = "initializeApns (case monitoring cfg of None \<Rightarrow> None | Some m \<Rightarrow> apns m) made ?s2"
  have a: "quiet s ?s2" unfolding quiet_def by (auto split: option.splits)
  have b: "quiet ?s2 ?s3" by (rule quiet_initializeApns)
  have c: "quiet ?s3 (?s3\<lparr>wss := True, heartbeatInterval := True\<rparr>)" unfolding quiet_def by auto
  show ?thesis
    using quiet_trans [OF quiet_trans [OF a b] c] by (simp add: initialize_def Let_def)
qed

lemma resend_cores:
  "cores (pendingRequests (resendPendingRequestsToDevice dev w now s)) = cores (pendingRequests s)"
  using delivers_resendPendingRequestsToDevice [of s dev w now] by (simp add: delivers_def)

lemma handleConnection_frame:
  assumes "handleConnection w qId qName qToken now st = Inr st'"
  shows "timers st' = timers st \<and> nextTimer st' = nextTimer st \<and> nextPromise st' = nextPromise st \<and>
         cores (pendingRequests st') = cores (pendingRequests st)"
  using assms
  by (auto simp: handleConnection_def Let_def resend_fields resend_cores ws_close_def emit_def
        sendMessage_def split: option.splits if_splits)

lemma unsettling_resent: "list_all unsettling (resent dev w now table)"
  by (simp add: resent_def list_all_iff)

lemma unsettling_closes: "list_all unsettling (map (\<lambda>w'. Close w' None) sockets)"
  by (induction sockets) simp_all

lemma quiet_handleConnection:
  assumes "handleConnection w qId qName qToken now s = Inr s'"
  shows "quiet s s'"
proof -
  let ?dev = "or_default qId ''unknown''"
  note f = handleConnection_frame [OF assms]
  have "map link (cores (pendingRequests s')) = map link (cores (pendingRequests s))"
    using f by simp
  then have l: "map link (pendingRequests s') = map link (pendingRequests s)"
    by (simp add: map_link_cores)
  obtain ack where "trace s' =
           trace s @ map (\<lambda>w'. Close w' None) (closing s ?dev) @
             (if readyState s' w = OPEN
              then resent ?dev w now (pendingRequests s) @ [Send w (handshake_ack now ack)]
              else [])"
    using handleConnection_trace [OF assms] by blast
  moreover have "list_all unsettling (map (\<lambda>w'. Close w' None) (closing s ?dev) @
             (if readyState s' w = OPEN
              then resent ?dev w now (pendingRequests s) @ [Send w (handshake_ack now ack)]
              else []))"
    by (simp add: unsettling_resent unsettling_closes)
  ultimately have t: "\<exists>es. trace s' = trace s @ es \<and> list_all unsettling es" by blast
  obtain c where "clients s' = AList.update ?dev c (clients s)"
    using handleConnection_clients [OF assms] by blast
  then have c: "distinct (map fst (clients s)) \<longrightarrow> distinct (map fst (clients s'))"
    by (simp add: AList.distinct_update)
  have k: "distinct (map fst (deviceApnsTokens s)) \<longrightarrow> distinct (map fst (deviceApnsTokens s'))"
    by (simp add: handleConnection_tokens [OF assms] AList.distinct_update split: option.splits)
  show ?thesis
    unfolding quiet_def using f l t c k by simp
qed

lemma quiet_on_pong: "quiet s (on_pong dev now s)"
  unfolding on_pong_def by (rule quiet_clients_map_entry)

lemma quiet_heartbeat_client: "quiet s (heartbeat_client s entry)"
  unfolding heartbeat_client_def Let_def
  by (auto intro: quiet_ws_terminate quiet_clients_map_entry
      quiet_trans [OF quiet_clients_map_entry quiet_emit])

lemma quiet_checkHeartbeats: "quiet s (checkHeartbeats s)"
  unfolding checkHeartbeats_def by (rule quiet_foldl) (rule quiet_heartbeat_client)

lemma quiet_notifyTaskComplete: "quiet s (notifyTaskComplete sid tag summary now s)"
  unfolding notifyTaskComplete_def
  by (rule quiet_foldl) (auto intro: quiet_refl delivers_quiet [OF delivers_sendMessage])

subsection \<open>Consistency is kept\<close>

lemma settlings_append: "settlings k (es @ fs) = settlings k es @ settlings k fs"
  by (simp add: settlings_def)

lemma settlings_unsettling: "list_all unsettling es \<Longrightarrow> settlings k es = []"
  unfolding settlings_def by (induction es) (auto elim: unsettling.elims)

lemma settled_below_unsettling: "unsettling e \<Longrightarrow> settled_below n e"
  by (cases e) simp_all

lemma settled_below_mono: "settled_below n e \<Longrightarrow> n \<le> m \<Longrightarrow> settled_below m e"
  by (cases e) simp_all

lemma settlings_fresh:
  assumes "list_all (settled_below n) es" and "n \<le> k"
  shows "settlings k es = []"
  using assms unfolding settlings_def
  by (induction es) (auto elim!: settled_below.elims settles.elims)

lemma promises_append: "promises (al @ bl) = promises al @ promises bl"
  by (induction al rule: promises.induct) simp_all

lemma promises_member:
  "k \<in> set (promises al) \<longleftrightarrow> (\<exists>t sid ms. (t, InputTimeout sid k ms) \<in> set al)"
  by (induction al rule: promises.induct) auto

lemma promises_filter_subset: "set (promises (filter P al)) \<subseteq> set (promises al)"
  by (induction al rule: promises.induct) auto

lemma promises_filter_distinct: "distinct (promises al) \<Longrightarrow> distinct (promises (filter P al))"
proof (induction al rule: promises.induct)
  case (2 t sid k ms ts)
  then show ?case using promises_filter_subset [of P ts] by auto
qed simp_all

lemma promises_delete_distinct: "distinct (promises al) \<Longrightarrow> distinct (promises (AList.delete k al))"
  by (simp add: AList.delete_eq promises_filter_distinct)

lemma promises_same_timer:
  assumes "distinct (promises al)"
      and "(t1, InputTimeout s1 k m1) \<in> set al" and "(t2, InputTimeout s2 k m2) \<in> set al"
  shows "t1 = t2"
  using assms
proof (induction al rule: promises.induct)
  case (2 t sid k' ms ts)
  then show ?case by (auto simp: promises_member)
qed auto

lemma update_fresh: "k \<notin> fst ` set al \<Longrightarrow> AList.update k v al = al @ [(k, v)]"
  by (induction al) auto

lemma set_delete: "set (AList.delete k al) = {e \<in> set al. fst e \<noteq> k}"
  by (auto simp: AList.delete_eq)

lemma set_update_subset: "set (AList.update k v al) \<subseteq> insert (k, v) (set al)"
  by (induction al) auto

lemma map_fst_link: "map fst (map link table) = map fst table"
  by (simp add: link_def comp_def)

lemma pending_ok_link:
  "link entry' = link entry \<Longrightarrow> timers s' = timers s \<Longrightarrow> pending_ok s' entry' = pending_ok s entry"
  by (simp add: pending_ok_def link_def split: option.splits timer.splits)

lemma list_all_pending_ok_link:
  assumes "map link xs' = map link xs" and "timers s' = timers s"
  shows "list_all (pending_ok s') xs' = list_all (pending_ok s) xs"
  using assms(1)
proof (induction xs arbitrary: xs')
  case Nil
  then show ?case by simp
next
  case (Cons x xs)
  then obtain y ys where xs': "xs' = y # ys" "link y = link x" "map link ys = map link xs"
    by (cases xs') auto
  show ?case
    using Cons.IH [OF xs'(3)] pending_ok_link [OF xs'(2) assms(2)] by (simp add: xs'(1))
qed

lemma consistent_quiet:
  assumes c: "consistent s" and q: "quiet s s'"
  shows "consistent s'"
proof -
  obtain es where es: "trace s' = trace s @ es" "list_all unsettling es"
    using q unfolding quiet_def by blast
  have f: "timers s' = timers s" "nextTimer s' = nextTimer s" "nextPromise s' = nextPromise s"
    "map link (pendingRequests s') = map link (pendingRequests s)"
    using q unfolding quiet_def by simp_all
  have keys: "map fst (pendingRequests s') = map fst (pendingRequests s)"
    using arg_cong [OF f(4), of "map fst"] by (simp only: map_fst_link)
  have tok: "timer_ok s' = timer_ok s"
    by (rule ext) (simp add: timer_ok_def f es settlings_append settlings_unsettling split: timer.splits)
  have "list_all (settled_below (nextPromise s)) es"
    using es(2) by (induction es) (auto intro: settled_below_unsettling)
  then have sb: "list_all (settled_below (nextPromise s')) (trace s')"
    using c by (simp add: consistent_def f es)
  have po: "list_all (pending_ok s') (pendingRequests s')"
    using c list_all_pending_ok_link [OF f(4) f(1)] by (simp add: consistent_def)
  show ?thesis
    using c q sb po unfolding consistent_def quiet_def by (simp add: keys tok f)
qed

lemma pending_ok_timer:
  assumes "pending_ok s (sid, p)"
  shows "\<exists>ms. map_of (timers s) (timeoutId p) = Some (InputTimeout sid (continuation p) ms)"
  using assms by (auto simp: pending_ok_def split: option.splits timer.splits)

lemma consistent_pending:
  assumes "consistent s" and "map_of (pendingRequests s) sid = Some p"
  shows "\<exists>ms. map_of (timers s) (timeoutId p) = Some (InputTimeout sid (continuation p) ms) \<and>
              settlings (continuation p) (trace s) = [] \<and> continuation p < nextPromise s"
proof -
  have "(sid, p) \<in> set (pendingRequests s)" using assms(2) by (rule map_of_SomeD)
  then have "pending_ok s (sid, p)"
    using assms(1) by (auto simp: consistent_def list_all_iff)
  then obtain ms where ms: "map_of (timers s) (timeoutId p) = Some (InputTimeout sid (continuation p) ms)"
    using pending_ok_timer by blast
  then have "(timeoutId p, InputTimeout sid (continuation p) ms) \<in> set (timers s)"
    by (rule map_of_SomeD)
  then have "timer_ok s (timeoutId p, InputTimeout sid (continuation p) ms)"
    using assms(1) by (auto simp: consistent_def list_all_iff)
  then show ?thesis using ms by (auto simp: timer_ok_def)
qed

lemma consistent_fire:
  assumes c: "consistent s"
      and tm: "map_of (timers s) t = Some (InputTimeout sid k ms)"
      and e: "e = Resolve k r \<or> e = Reject k err"
  shows "consistent (s\<lparr>timers := AList.delete t (timers s),
                       pendingRequests := AList.delete sid (pendingRequests s),
                       trace := trace s @ [e]\<rparr>)"
proof -
  let ?s' = "s\<lparr>timers := AList.delete t (timers s),
                       pendingRequests := AList.delete sid (pendingRequests s),
                       trace := trace s @ [e]\<rparr>"
  have mem: "(t, InputTimeout sid k ms) \<in> set (timers s)" using tm by (rule map_of_SomeD)
  have dp: "distinct (promises (timers s))" using c by (simp add: consistent_def)
  have tk: "timer_ok s (t, InputTimeout sid k ms)"
    using c mem by (auto simp: consistent_def list_all_iff)
  have se: "settlings k' [e] = (if k' = k then [e] else [])" for k'
    using e by (auto simp: settlings_def)
  have 1: "list_all (timer_ok ?s') (timers ?s')"
    unfolding list_all_iff
  proof
    fix x assume "x \<in> set (timers ?s')"
    then have x: "x \<in> set (timers s)" "fst x \<noteq> t" by (simp_all add: set_delete)
    then have ok: "timer_ok s x" using c by (auto simp: consistent_def list_all_iff)
    show "timer_ok ?s' x"
    proof (cases "snd x")
      case (InputTimeout sid' k' ms')
      then have "(fst x, InputTimeout sid' k' ms') \<in> set (timers s)" using x(1) by (cases x) auto
      then have "k' \<noteq> k" using promises_same_timer [OF dp _ mem] x(2) by blast
      then show ?thesis using ok InputTimeout by (simp add: timer_ok_def settlings_append se)
    next
      case (SessionTimeout dev)
      then show ?thesis using ok by (simp add: timer_ok_def)
    qed
  qed
  have 2: "list_all (pending_ok ?s') (pendingRequests ?s')"
    unfolding list_all_iff
  proof
    fix x assume "x \<in> set (pendingRequests ?s')"
    then have x: "x \<in> set (pendingRequests s)" "fst x \<noteq> sid" by (simp_all add: set_delete)
    then have "pending_ok s (fst x, snd x)" using c by (auto simp: consistent_def list_all_iff)
    then obtain ms' where ms': "map_of (timers s) (timeoutId (snd x)) =
        Some (InputTimeout (fst x) (continuation (snd x)) ms')"
      using pending_ok_timer by blast
    then have "timeoutId (snd x) \<noteq> t" using tm x(2) by auto
    then show "pending_ok ?s' x" using ms' by (simp add: pending_ok_def)
  qed
  have 3: "list_all (settled_below (nextPromise ?s')) (trace ?s')"
    using c tk e by (auto simp: consistent_def timer_ok_def)
  show ?thesis
    using c 1 2 3 unfolding consistent_def
    by (simp add: AList.distinct_delete promises_delete_distinct)
qed

lemma timer_ok_cong:
  "nextTimer s' = nextTimer s \<Longrightarrow> nextPromise s' = nextPromise s \<Longrightarrow> trace s' = trace s
     \<Longrightarrow> timer_ok s' = timer_ok s"
  by (rule ext) (simp add: timer_ok_def split: timer.splits)

lemma pending_ok_cong: "timers s' = timers s \<Longrightarrow> pending_ok s' = pending_ok s"
  by (rule ext) (simp add: pending_ok_def split: option.splits timer.splits)

lemma consistent_timer_refs:
  assumes "consistent s"
  shows "nextTimer s \<notin> fst ` set (timers s)"
proof
  assume "nextTimer s \<in> fst ` set (timers s)"
  then obtain x where "x \<in> set (timers s)" "fst x = nextTimer s" by auto
  then show False
    using assms by (auto simp: consistent_def list_all_iff timer_ok_def)
qed

lemma consistent_arm:
  assumes c: "consistent s"
      and cb: "case cb of InputTimeout sid k ms \<Rightarrow> k = nextPromise s | SessionTimeout dev \<Rightarrow> True"
  shows "consistent (s\<lparr>timers := AList.update (nextTimer s) cb (timers s),
                       nextTimer := Suc (nextTimer s), nextPromise := Suc (nextPromise s)\<rparr>)"
proof -
  let ?s' = "s\<lparr>timers := AList.update (nextTimer s) cb (timers s),
                       nextTimer := Suc (nextTimer s), nextPromise := Suc (nextPromise s)\<rparr>"
  have fresh: "nextTimer s \<notin> fst ` set (timers s)" by (rule consistent_timer_refs [OF c])
  have tm: "timers ?s' = timers s @ [(nextTimer s, cb)]" by (simp add: update_fresh [OF fresh])
  have sb: "list_all (settled_below (nextPromise s)) (trace s)" using c by (simp add: consistent_def)
  have old: "timer_ok ?s' x" if "x \<in> set (timers s)" for x
  proof -
    have "timer_ok s x" using c that by (auto simp: consistent_def list_all_iff)
    then show ?thesis by (auto simp: timer_ok_def split: timer.splits)
  qed
  have new: "timer_ok ?s' (nextTimer s, cb)"
    using cb settlings_fresh [OF sb order_refl] by (auto simp: timer_ok_def split: timer.splits)
  have 1: "list_all (timer_ok ?s') (timers ?s')"
    unfolding tm using old new by (simp add: list_all_iff)
  have below: "k < nextPromise s" if kin: "k \<in> set (promises (timers s))" for k
  proof -
    obtain t sid ms where "(t, InputTimeout sid k ms) \<in> set (timers s)"
      using kin unfolding promises_member by blast
    then have "timer_ok s (t, InputTimeout sid k ms)"
      using c by (auto simp: consistent_def list_all_iff)
    then show ?thesis by (simp add: timer_ok_def)
  qed
  have 2: "distinct (promises (timers ?s'))"
    unfolding tm using c cb below
    by (cases cb) (auto simp: promises_append consistent_def)
  have 3: "list_all (pending_ok ?s') (pendingRequests ?s')"
    unfolding list_all_iff
  proof
    fix x assume "x \<in> set (pendingRequests ?s')"
    then have "pending_ok s (fst x, snd x)" using c by (auto simp: consistent_def list_all_iff)
    then obtain ms' where ms': "map_of (timers s) (timeoutId (snd x)) =
        Some (InputTimeout (fst x) (continuation (snd x)) ms')"
      using pending_ok_timer by blast
    then have "timeoutId (snd x) \<in> fst ` set (timers s)" by (force dest: map_of_SomeD)
    then have "timeoutId (snd x) \<noteq> nextTimer s" using fresh by (force simp: image_iff)
    then show "pending_ok ?s' x" using ms' by (simp add: pending_ok_def AList.update_conv')
  qed
  have 4: "list_all (settled_below (nextPromise ?s')) (trace ?s')"
    using sb by (auto simp: list_all_iff intro: settled_below_mono)
  show ?thesis
    using c 1 2 3 4 unfolding consistent_def by (simp add: AList.distinct_update)
qed

lemma consistent_setTimeout_session:
  assumes c: "consistent s"
  shows "consistent (snd (setTimeout (SessionTimeout dev) s))"
proof -
  let ?s' = "s\<lparr>timers := AList.update (nextTimer s) (SessionTimeout dev) (timers s),
                nextTimer := Suc (nextTimer s)\<rparr>"
  have fresh: "nextTimer s \<notin> fst ` set (timers s)" by (rule consistent_timer_refs [OF c])
  have tm: "timers ?s' = timers s @ [(nextTimer s, SessionTimeout dev)]"
    by (simp add: update_fresh [OF fresh])
  have 1: "list_all (timer_ok ?s') (timers ?s')"
    unfolding tm using c
    by (auto simp: consistent_def list_all_iff timer_ok_def split: timer.splits)
  have 2: "distinct (promises (timers ?s'))"
    unfolding tm using c by (simp add: promises_append consistent_def)
  have 3: "list_all (pending_ok ?s') (pendingRequests ?s')"
    unfolding list_all_iff
  proof
    fix x assume "x \<in> set (pendingRequests ?s')"
    then have "pending_ok s (fst x, snd x)" using c by (auto simp: consistent_def list_all_iff)
    then obtain ms' where ms': "map_of (timers s) (timeoutId (snd x)) =
        Some (InputTimeout (fst x) (continuation (snd x)) ms')"
      using pending_ok_timer by blast
    then have "timeoutId (snd x) \<in> fst ` set (timers s)" by (force dest: map_of_SomeD)
    then have "timeoutId (snd x) \<noteq> nextTimer s" using fresh by (force simp: image_iff)
    then show "pending_ok ?s' x" using ms' by (simp add: pending_ok_def AList.update_conv')
  qed
  have "consistent ?s'"
    using c 1 2 3 unfolding consistent_def by (simp add: AList.distinct_update)
  then show ?thesis by (simp add: setTimeout_def)
qed

lemma consistent_store:
  assumes c: "consistent s"
      and tm: "map_of (timers s) (timeoutId p) = Some (InputTimeout sid (continuation p) ms)"
  shows "consistent (s\<lparr>pendingRequests := AList.update sid p (pendingRequests s)\<rparr>)"
proof -
  let ?s' = "s\<lparr>pendingRequests := AList.update sid p (pendingRequests s)\<rparr>"
  have tok: "timer_ok ?s' = timer_ok s" by (rule timer_ok_cong) simp_all
  have "pending_ok ?s' x" if "x \<in> set (pendingRequests ?s')" for x
  proof (cases "x = (sid, p)")
    case True
    then show ?thesis using tm by (simp add: pending_ok_def)
  next
    case False
    then have "x \<in> set (pendingRequests s)" using that set_update_subset [of sid p "pendingRequests s"] by auto
    then have "pending_ok s x" using c by (auto simp: consistent_def list_all_iff)
    then show ?thesis by (simp add: pending_ok_def)
  qed
  then have "list_all (pending_ok ?s') (pendingRequests ?s')" by (simp add: list_all_iff)
  then show ?thesis
    using c unfolding consistent_def by (simp add: tok AList.distinct_update)
qed

lemma consistent_new_pending_request:
  assumes c: "consistent s"
  shows "consistent (new_pending_request tag text opts ity eff sid now s)"
proof -
  let ?a = "s\<lparr>timers := AList.update (nextTimer s) (InputTimeout sid (nextPromise s) eff) (timers s),
                nextTimer := Suc (nextTimer s), nextPromise := Suc (nextPromise s)\<rparr>"
  let ?p = "\<lparr>requestId = sid, sessionId = sid, projectTag = tag, prompt = text,
        options = opts, inputType = ity, createdAt = now, continuation = nextPromise s,
        timeoutId = nextTimer s, notifiedDevices = {}, pushedViaApns = {}\<rparr>"
  have a: "consistent ?a" by (rule consistent_arm [OF c]) simp
  have "map_of (timers ?a) (timeoutId ?p) = Some (InputTimeout sid (continuation ?p) eff)"
    by (simp add: AList.update_conv')
  then have "consistent (?a\<lparr>pendingRequests := AList.update sid ?p (pendingRequests ?a)\<rparr>)"
    by (rule consistent_store [OF a])
  moreover have "new_pending_request tag text opts ity eff sid now s =
      ?a\<lparr>pendingRequests := AList.update sid ?p (pendingRequests ?a)\<rparr>"
    by (simp add: new_pending_request_def setTimeout_def Let_def)
  ultimately show ?thesis by simp
qed

lemma consistent_disarm:
  assumes c: "consistent s"
      and unused: "\<forall>x \<in> set (pendingRequests s). \<forall>cb.
                     map_of (timers s) (timeoutId (snd x)) = Some cb \<longrightarrow> P (timeoutId (snd x), cb)"
  shows "consistent (s\<lparr>timers := filter P (timers s)\<rparr>)"
proof -
  let ?s' = "s\<lparr>timers := filter P (timers s)\<rparr>"
  have d: "distinct (map fst (timers s))" using c by (simp add: consistent_def)
  have "timer_ok ?s' = timer_ok s" by (rule timer_ok_cong) simp_all
  then have 1: "list_all (timer_ok ?s') (timers ?s')"
    using c by (auto simp: consistent_def list_all_iff)
  have 3: "list_all (pending_ok ?s') (pendingRequests ?s')"
    unfolding list_all_iff
  proof
    fix x assume x: "x \<in> set (pendingRequests ?s')"
    then have "pending_ok s (fst x, snd x)" using c by (auto simp: consistent_def list_all_iff)
    then obtain ms' where ms': "map_of (timers s) (timeoutId (snd x)) =
        Some (InputTimeout (fst x) (continuation (snd x)) ms')"
      using pending_ok_timer by blast
    then have "P (timeoutId (snd x), InputTimeout (fst x) (continuation (snd x)) ms')"
      using unused x by simp
    moreover have "(timeoutId (snd x), InputTimeout (fst x) (continuation (snd x)) ms') \<in> set (timers s)"
      using ms' by (rule map_of_SomeD)
    ultimately have "(timeoutId (snd x), InputTimeout (fst x) (continuation (snd x)) ms')
        \<in> set (filter P (timers s))" by simp
    moreover have "distinct (map fst (filter P (timers s)))" using d by (rule distinct_map_filter)
    ultimately have "map_of (filter P (timers s)) (timeoutId (snd x)) =
        Some (InputTimeout (fst x) (continuation (snd x)) ms')" by simp
    then show "pending_ok ?s' x" by (simp add: pending_ok_def)
  qed
  show ?thesis
    using c 1 3 unfolding consistent_def
    by (simp add: distinct_map_filter promises_filter_distinct)
qed

lemma consistent_clients:
  assumes "consistent s" and "distinct (map fst cs)"
  shows "consistent (s\<lparr>clients := cs\<rparr>)"
proof -
  have "timer_ok (s\<lparr>clients := cs\<rparr>) = timer_ok s" by (rule timer_ok_cong) simp_all
  moreover have "pending_ok (s\<lparr>clients := cs\<rparr>) = pending_ok s" by (rule pending_ok_cong) simp
  ultimately show ?thesis using assms unfolding consistent_def by simp
qed

lemma consistent_forget:
  assumes "consistent s"
  shows "consistent (s\<lparr>pendingRequests := []\<rparr>)"
proof -
  have "timer_ok (s\<lparr>pendingRequests := []\<rparr>) = timer_ok s" by (rule timer_ok_cong) simp_all
  then show ?thesis using assms unfolding consistent_def by simp
qed

lemma consistent_new_manager: "consistent new_manager"
  by (simp add: consistent_def new_manager_def)

lemma consistent_handleInputResponse:
  assumes c: "consistent s"
  shows "consistent (handleInputResponse sid answer name s)"
proof (cases "map_of (pendingRequests s) sid")
  case None
  then show ?thesis using c by (simp add: handleInputResponse_def)
next
  case (Some p)
  obtain ms where tm: "map_of (timers s) (timeoutId p) = Some (InputTimeout sid (continuation p) ms)"
    using consistent_pending [OF c Some] by blast
  have "handleInputResponse sid answer name s =
      s\<lparr>timers := AList.delete (timeoutId p) (timers s),
        pendingRequests := AList.delete sid (pendingRequests s),
        trace := trace s @ [Resolve (continuation p) answer]\<rparr>"
    using Some by (simp add: handleInputResponse_def clearTimeout_def emit_def)
  then show ?thesis using consistent_fire [OF c tm, of "Resolve (continuation p) answer"] by simp
qed

lemma consistent_cancelInputRequest:
  assumes c: "consistent s"
  shows "consistent (snd (cancelInputRequest sid s))"
proof (cases "map_of (pendingRequests s) sid")
  case None
  then show ?thesis using c by (simp add: cancelInputRequest_def)
next
  case (Some p)
  obtain ms where tm: "map_of (timers s) (timeoutId p) = Some (InputTimeout sid (continuation p) ms)"
    using consistent_pending [OF c Some] by blast
  have "snd (cancelInputRequest sid s) =
      s\<lparr>timers := AList.delete (timeoutId p) (timers s),
        pendingRequests := AList.delete sid (pendingRequests s),
        trace := trace s @ [Reject (continuation p) Cancelled]\<rparr>"
    using Some by (simp add: cancelInputRequest_def clearTimeout_def emit_def)
  then show ?thesis using consistent_fire [OF c tm, of "Reject (continuation p) Cancelled"] by simp
qed

lemma consistent_fire_timer:
  assumes c: "consistent s"
  shows "consistent (fire_timer t s)"
proof (cases "map_of (timers s) t")
  case None
  then show ?thesis using c by (simp add: fire_timer_def)
next
  case (Some cb)
  show ?thesis
  proof (cases cb)
    case (InputTimeout sid k ms)
    then have tm: "map_of (timers s) t = Some (InputTimeout sid k ms)" using Some by simp
    show ?thesis
      using consistent_fire [OF c tm, of "Reject k (TimedOut ms)"]
      by (simp add: fire_input_timeout [OF tm])
  next
    case (SessionTimeout dev)
    let ?s1 = "s\<lparr>timers := filter (\<lambda>e. fst e \<noteq> t) (timers s)\<rparr>"
    have "\<forall>x \<in> set (pendingRequests s). \<forall>cb'.
            map_of (timers s) (timeoutId (snd x)) = Some cb' \<longrightarrow> fst (timeoutId (snd x), cb') \<noteq> t"
    proof (intro ballI allI impI)
      fix x cb' assume x: "x \<in> set (pendingRequests s)"
        and cb': "map_of (timers s) (timeoutId (snd x)) = Some cb'"
      have "pending_ok s (fst x, snd x)" using c x by (auto simp: consistent_def list_all_iff)
      then obtain ms' where "map_of (timers s) (timeoutId (snd x)) =
          Some (InputTimeout (fst x) (continuation (snd x)) ms')"
        using pending_ok_timer by blast
      then show "fst (timeoutId (snd x), cb') \<noteq> t" using Some SessionTimeout by auto
    qed
    then have c1: "consistent ?s1" by (rule consistent_disarm [OF c])
    have d1: "distinct (map fst (AList.delete dev (clients ?s1)))"
      using c by (simp add: consistent_def AList.distinct_delete)
    have eq: "AList.delete t (timers s) = filter (\<lambda>e. fst e \<noteq> t) (timers s)"
      by (auto simp: AList.delete_eq intro: filter_cong)
    show ?thesis
      using c1 consistent_clients [OF c1 d1] Some SessionTimeout
      by (simp add: fire_timer_def eq Let_def split: option.splits)
  qed
qed

lemma consistent_handleMessage:
  assumes c: "consistent s"
  shows "consistent (handleMessage dev message now s)"
proof (cases "map_of (clients s) dev")
  case None
  then show ?thesis using c by (simp add: handleMessage_def)
next
  case (Some client0)
  let ?touch = "\<lambda>c. c\<lparr>session := (session c)\<lparr>lastSeen := now\<rparr>\<rparr>"
  let ?s1 = "s\<lparr>clients := AList.map_entry dev ?touch (clients s)\<rparr>"
  have c1: "consistent ?s1" by (rule consistent_quiet [OF c quiet_clients_map_entry])
  show ?thesis
  proof (cases message)
    case (handshake hs)
    then show ?thesis
      using Some c1 consistent_quiet [OF c1 quiet_clients_map_entry]
      by (simp add: handleMessage_def Let_def split: option.splits)
  next
    case heartbeat
    then show ?thesis
      using Some consistent_quiet [OF c1 delivers_quiet [OF delivers_sendMessage]]
      by (simp add: handleMessage_def Let_def)
  next
    case (input_response ir)
    then show ?thesis
      using Some c1 consistent_handleInputResponse [OF c1]
      by (simp add: handleMessage_def Let_def split: option.splits)
  next
    case (other_message x)
    then show ?thesis using Some c1 by (simp add: handleMessage_def Let_def)
  qed
qed

lemma consistent_on_close:
  assumes c: "consistent s"
  shows "consistent (on_close dev s)"
proof (cases "map_of (clients s) dev")
  case None
  then show ?thesis using c by (simp add: on_close_def)
next
  case (Some client)
  have "consistent (s\<lparr>clients := AList.map_entry dev
      (\<lambda>c. c\<lparr>session := (session c)\<lparr>status := Disconnected\<rparr>\<rparr>) (clients s)\<rparr>)"
    by (rule consistent_quiet [OF c quiet_clients_map_entry])
  then show ?thesis
    using Some by (simp add: on_close_def Let_def consistent_setTimeout_session)
qed

lemma consistent_requestMobileInput:
  assumes c: "consistent s"
  shows "consistent (snd (requestMobileInput tag text opts ity timeoutMs sid now s))"
proof (cases "0 < getConnectedDeviceCount s \<or> deviceApnsTokens s \<noteq> []")
  case False
  then show ?thesis using c by (simp add: requestMobileInput_def)
next
  case True
  show ?thesis
    using consistent_quiet [OF consistent_new_pending_request [OF c]
        delivers_quiet [OF requestMobileInput_delivers [OF True]]] .
qed

lemma clear_loop:
  "foldl (\<lambda>s entry. clearTimeout (timeoutId (snd entry)) s) s xs =
     s\<lparr>timers := filter (\<lambda>e. fst e \<notin> (\<lambda>entry. timeoutId (snd entry)) ` set xs) (timers s)\<rparr>"
proof (induction xs arbitrary: s)
  case Nil
  show ?case by simp
next
  case (Cons x xs)
  have "filter (\<lambda>e. fst e \<notin> (\<lambda>entry. timeoutId (snd entry)) ` set xs)
          (AList.delete (timeoutId (snd x)) (timers s)) =
        filter (\<lambda>e. fst e \<notin> (\<lambda>entry. timeoutId (snd entry)) ` set (x # xs)) (timers s)"
    by (auto simp: AList.delete_eq intro: filter_cong)
  then have "(clearTimeout (timeoutId (snd x)) s)
      \<lparr>timers := filter (\<lambda>e. fst e \<notin> (\<lambda>entry. timeoutId (snd entry)) ` set xs)
                   (timers (clearTimeout (timeoutId (snd x)) s))\<rparr> =
      s\<lparr>timers := filter (\<lambda>e. fst e \<notin> (\<lambda>entry. timeoutId (snd entry)) ` set (x # xs)) (timers s)\<rparr>"
    by (simp add: clearTimeout_def)
  then show ?case
    using Cons.IH [of "clearTimeout (timeoutId (snd x)) s"] by simp
qed

lemma quiet_close_loop:
  "quiet s (foldl (\<lambda>s entry. if readyState s (ws (snd entry)) = OPEN
                              then ws_close (ws (snd entry)) reason s else s) s xs)"
  by (rule quiet_foldl) (simp add: quiet_refl quiet_ws_close)

lemma consistent_disarm_forget:
  assumes c: "consistent s"
  shows "consistent (s\<lparr>timers := filter P (timers s), pendingRequests := []\<rparr>)"
proof -
  have a: "consistent ((s\<lparr>pendingRequests := []\<rparr>)\<lparr>timers := filter P (timers (s\<lparr>pendingRequests := []\<rparr>))\<rparr>)"
    by (rule consistent_disarm [OF consistent_forget [OF c]]) simp
  have eq: "(s\<lparr>pendingRequests := []\<rparr>)\<lparr>timers := filter P (timers (s\<lparr>pendingRequests := []\<rparr>))\<rparr> =
      s\<lparr>timers := filter P (timers s), pendingRequests := []\<rparr>"
    by (cases s) simp
  show ?thesis using a unfolding eq .
qed

lemma consistent_shutdown:
  assumes c: "consistent s"
  shows "consistent (shutdown s)"
proof -
  let ?s1 = "(if heartbeatInterval s then s\<lparr>heartbeatInterval := False\<rparr> else s)"
  let ?s2 = "foldl (\<lambda>s entry. if readyState s (ws (snd entry)) = OPEN
                                  then ws_close (ws (snd entry)) (Some (1001, ''Server shutting down'')) s
                                  else s) ?s1 (clients ?s1)"
  let ?s3 = "?s2\<lparr>clients := []\<rparr>"
  let ?s4 = "(if wss ?s3 then (emit WssClose ?s3)\<lparr>wss := False\<rparr> else ?s3)"
  let ?s5 = "(if apnsProvider ?s4 then (emit ApnsShutdown ?s4)\<lparr>apnsProvider := False\<rparr> else ?s4)"
  have "quiet s ?s1" by (simp add: quiet_def)
  then have c1: "consistent ?s1" by (rule consistent_quiet [OF c])
  have c2: "consistent ?s2" by (rule consistent_quiet [OF c1 quiet_close_loop])
  have c3: "consistent ?s3" by (rule consistent_clients [OF c2]) simp
  have "quiet ?s3 ?s4" unfolding quiet_def emit_def by (auto intro: exI [of _ "[WssClose]"])
  then have c4: "consistent ?s4" by (rule consistent_quiet [OF c3])
  have "quiet ?s4 ?s5" unfolding quiet_def emit_def by (auto intro: exI [of _ "[ApnsShutdown]"])
  then have c5: "consistent ?s5" by (rule consistent_quiet [OF c4])
  show ?thesis
    unfolding shutdown_def Let_def clear_loop
    by (rule consistent_disarm_forget [OF c5])
qed

lemma consistent_handle:
  assumes c: "consistent st"
  shows "consistent (handle ev st)"
proof (cases ev)
  case (Initialize cfg made)
  then show ?thesis using c by (auto intro: consistent_quiet quiet_initialize)
next
  case (Connection w qId qName qToken now)
  show ?thesis
  proof (cases "handleConnection w qId qName qToken now (accept w st)")
    case (Inl e)
    then show ?thesis using c Connection by simp
  next
    case (Inr st')
    have "consistent st'"
      using c Inr by (blast intro: consistent_quiet quiet_accept quiet_handleConnection)
    then show ?thesis using c Connection Inr by simp
  qed
next
  case (Message w parsed now)
  then show ?thesis
    using c by (cases parsed) (auto simp: on_message_def consistent_handleMessage split: option.splits)
next
  case (Pong w now)
  then show ?thesis
    using c by (auto intro: consistent_quiet quiet_on_pong split: option.splits)
next
  case (SocketClosed w)
  then show ?thesis
    using c by (auto intro: consistent_on_close consistent_quiet quiet_socket_closed split: option.splits)
next
  case HeartbeatTick
  then show ?thesis using c by (auto intro: consistent_quiet quiet_checkHeartbeats)
next
  case (TimerFired t)
  then show ?thesis using c by (simp add: consistent_fire_timer)
next
  case (ApnsSettled k answer)
  then show ?thesis
    using c by (auto intro: consistent_quiet delivers_quiet delivers_sendApnsPush_settled)
next
  case (RequestMobileInput tag question opts ity timeoutMs sid now)
  then show ?thesis using c by (simp add: consistent_requestMobileInput)
next
  case (CancelInputRequest sid)
  then show ?thesis using c by (simp add: consistent_cancelInputRequest)
next
  case (NotifyInputRequired payload now)
  then show ?thesis
    using c by (auto intro: consistent_quiet delivers_quiet delivers_notifyInputRequired)
next
  case (NotifyTaskComplete sid tag summary now)
  then show ?thesis using c by (auto intro: consistent_quiet quiet_notifyTaskComplete)
next
  case Shutdown
  then show ?thesis using c by (simp add: consistent_shutdown)
qed

theorem reachable_consistent: "reachable st \<Longrightarrow> consistent st"
  by (induction rule: reachable.induct) (simp_all add: consistent_new_manager consistent_handle)

lemma reachable_run: "reachable (run evs)"
proof (induction evs rule: rev_induct)
  case Nil
  show ?case by (simp add: run_def reachable.created)
next
  case (snoc ev evs)
  then show ?case by (simp add: run_def reachable.handled)
qed

lemma run_snoc: "run (evs @ [ev]) = handle ev (run evs)"
  by (simp add: run_def)

lemma reachable_maps:
  assumes "reachable st"
  shows "distinct (map fst (clients st))" "distinct (map fst (pendingRequests st))"
    "distinct (map fst (deviceApnsTokens st))" "distinct (map fst (timers st))"
  using reachable_consistent [OF assms] by (simp_all add: consistent_def)

lemma shutdown_trace:
  "\<exists>es. trace (shutdown s) = trace s @ es \<and> list_all unsettling es"
proof -
  let ?s1 = "(if heartbeatInterval s then s\<lparr>heartbeatInterval := False\<rparr> else s)"
  let ?s2 = "foldl (\<lambda>s entry. if readyState s (ws (snd entry)) = OPEN
                                  then ws_close (ws (snd entry)) (Some (1001, ''Server shutting down'')) s
                                  else s) ?s1 (clients ?s1)"
  let ?s3 = "?s2\<lparr>clients := []\<rparr>"
  let ?s4 = "(if wss ?s3 then (emit WssClose ?s3)\<lparr>wss := False\<rparr> else ?s3)"
  let ?s5 = "(if apnsProvider ?s4 then (emit ApnsShutdown ?s4)\<lparr>apnsProvider := False\<rparr> else ?s4)"
  have "quiet s ?s1" by (simp add: quiet_def)
  moreover have "quiet ?s1 ?s2" by (rule quiet_close_loop)
  moreover have "quiet ?s2 ?s3" by (simp add: quiet_def)
  moreover have "quiet ?s3 ?s4" unfolding quiet_def emit_def by (auto intro: exI [of _ "[WssClose]"])
  moreover have "quiet ?s4 ?s5" unfolding quiet_def emit_def by (auto intro: exI [of _ "[ApnsShutdown]"])
  ultimately have "quiet s ?s5" by (blast intro: quiet_trans)
  then have "\<exists>es. trace ?s5 = trace s @ es \<and> list_all unsettling es" by (simp add: quiet_def)
  moreover have "trace (shutdown s) = trace ?s5"
    unfolding shutdown_def Let_def clear_loop by simp
  ultimately show ?thesis by simp
qed

lemma shutdown_settles_nothing: "settlings k (trace (shutdown s)) = settlings k (trace s)"
proof -
  obtain es where "trace (shutdown s) = trace s @ es" "list_all unsettling es"
    using shutdown_trace by blast
  then show ?thesis by (simp add: settlings_append settlings_unsettling)
qed

lemma shutdown_empties_table: "pendingRequests (shutdown s) = []"
  by (simp add: shutdown_def Let_def)

lemma handleMessage_unknown_device:
  "map_of (clients st) dev = None \<Longrightarrow> on_message dev parsed now st = st"
  by (cases parsed) (simp_all add: on_message_def handleMessage_def)


subsection \<open>An existing server is configured\<close>

lemma foldl_frame:
  assumes "\<And>s x. g (f s x) = g s"
  shows "g (foldl f s xs) = g s"
  by (induction xs arbitrary: s) (simp_all add: assms)

lemma heartbeat_client_server:
  "wss (heartbeat_client s entry) = wss s" "config (heartbeat_client s entry) = config s"
  by (simp_all add: heartbeat_client_def ws_terminate_def emit_def Let_def)

lemma handleInputResponse_server:
  "wss (handleInputResponse sid r name s) = wss s" "config (handleInputResponse sid r name s) = config s"
  by (simp_all add: handleInputResponse_def clearTimeout_def emit_def Let_def split: option.splits)

lemma sendMessage_server:
  "wss (sendMessage w m s) = wss s" "config (sendMessage w m s) = config s"
  by (simp_all add: sendMessage_def emit_def)

lemma handleMessage_server:
  "wss (handleMessage dev message now s) = wss s" "config (handleMessage dev message now s) = config s"
  by (simp_all add: handleMessage_def handleInputResponse_server sendMessage_server Let_def
      split: option.splits incoming.splits)

lemma on_message_server:
  "wss (on_message dev parsed now s) = wss s" "config (on_message dev parsed now s) = config s"
  by (simp_all add: on_message_def handleMessage_server split: option.splits)

lemma on_close_server:
  "wss (on_close dev s) = wss s" "config (on_close dev s) = config s"
  by (simp_all add: on_close_def setTimeout_def Let_def split: option.splits)

lemma fire_timer_server:
  "wss (fire_timer t s) = wss s" "config (fire_timer t s) = config s"
  by (simp_all add: fire_timer_def emit_def Let_def split: option.splits timer.splits)

lemma cancelInputRequest_server:
  "wss (snd (cancelInputRequest sid s)) = wss s" "config (snd (cancelInputRequest sid s)) = config s"
  by (simp_all add: cancelInputRequest_def clearTimeout_def emit_def Let_def split: option.splits)

lemma handleConnection_server:
  assumes "handleConnection w qId qName qToken now st = Inr st'"
  shows "wss st' = wss st" "config st' = config st"
proof -
  let ?dev = "or_default qId ''unknown''"
  let ?st1 = "(case or_undefined qToken of
                   Some t \<Rightarrow> st\<lparr>deviceApnsTokens := AList.update ?dev t (deviceApnsTokens st)\<rparr>
                 | None \<Rightarrow> st)"
  have 1: "wss ?st1 = wss st" "config ?st1 = config st" by (simp_all split: option.splits)
  show "wss st' = wss st"
    using assms 1
    by (auto simp: handleConnection_def Let_def resend_fields ws_close_def emit_def sendMessage_def
        split: option.splits if_splits)
  show "config st' = config st"
    using assms 1
    by (auto simp: handleConnection_def Let_def resend_fields ws_close_def emit_def sendMessage_def
        split: option.splits if_splits)
qed

lemma checkHeartbeats_server:
  "wss (checkHeartbeats s) = wss s" "config (checkHeartbeats s) = config s"
  unfolding checkHeartbeats_def
  by (rule foldl_frame, rule heartbeat_client_server)+

lemma notifyTaskComplete_server:
  "wss (notifyTaskComplete sid tag summary now s) = wss s"
  "config (notifyTaskComplete sid tag summary now s) = config s"
  unfolding notifyTaskComplete_def
  by (rule foldl_frame, simp add: sendMessage_server)+

lemma requestMobileInput_server:
  "wss (snd (requestMobileInput tag text opts ity timeoutMs sid now st)) = wss st"
  "config (snd (requestMobileInput tag text opts ity timeoutMs sid now st)) = config st"
proof -
  show "wss (snd (requestMobileInput tag text opts ity timeoutMs sid now st)) = wss st"
  proof (cases "0 < getConnectedDeviceCount st \<or> deviceApnsTokens st \<noteq> []")
    case True
    show ?thesis
      using delivers_fields(1) [OF requestMobileInput_delivers [OF True]]
      by (simp add: new_pending_request_fields)
  next
    case False
    then show ?thesis by (simp add: requestMobileInput_def)
  qed
  show "config (snd (requestMobileInput tag text opts ity timeoutMs sid now st)) = config st"
  proof (cases "0 < getConnectedDeviceCount st \<or> deviceApnsTokens st \<noteq> []")
    case True
    show ?thesis
      using delivers_fields(4) [OF requestMobileInput_delivers [OF True]]
      by (simp add: new_pending_request_fields)
  next
    case False
    then show ?thesis by (simp add: requestMobileInput_def)
  qed
qed

lemma handle_server:
  assumes "\<forall>cfg made. ev \<noteq> Initialize cfg made" and "ev \<noteq> Shutdown"
  shows "wss (handle ev st) = wss st \<and> config (handle ev st) = config st"
proof (cases ev)
  case (Connection w qId qName qToken now)
  show ?thesis
  proof (cases "handleConnection w qId qName qToken now (accept w st)")
    case (Inl e)
    then show ?thesis using Connection by simp
  next
    case (Inr st')
    then show ?thesis
      using Connection handleConnection_server [OF Inr] by (simp add: accept_def)
  qed
next
  case (Message w parsed now)
  then show ?thesis by (simp add: on_message_server split: option.splits)
next
  case (Pong w now)
  then show ?thesis by (simp add: on_pong_def split: option.splits)
next
  case (SocketClosed w)
  then show ?thesis by (simp add: on_close_server split: option.splits)
next
  case HeartbeatTick
  then show ?thesis by (simp add: checkHeartbeats_server)
next
  case (TimerFired t)
  then show ?thesis by (simp add: fire_timer_server)
next
  case (ApnsSettled k answer)
  then show ?thesis using delivers_fields(1,4) [OF delivers_sendApnsPush_settled] by simp
next
  case (RequestMobileInput tag question opts ity timeoutMs sid now)
  then show ?thesis by (simp add: requestMobileInput_server)
next
  case (CancelInputRequest sid)
  then show ?thesis by (simp add: cancelInputRequest_server)
next
  case (NotifyInputRequired payload now)
  then show ?thesis using delivers_fields(1,4) [OF delivers_notifyInputRequired] by simp
next
  case (NotifyTaskComplete sid tag summary now)
  then show ?thesis by (simp add: notifyTaskComplete_server)
next
  case (Initialize cfg made)
  then show ?thesis using assms(1) by simp
next
  case Shutdown
  then show ?thesis using assms(2) by simp
qed

lemma initialize_configured: "configured (initialize cfg made st)"
proof -
  have "config (initializeApns a made s) = config s" for a s
    by (cases a) (simp_all add: initializeApns_def)
  then show ?thesis
    by (cases "monitoring cfg") (simp_all add: configured_def initialize_def Let_def)
qed

lemma shutdown_configured: "configured (shutdown st)"
  by (simp add: configured_def shutdown_def Let_def clear_loop emit_def)

lemma reachable_configured: "reachable st \<Longrightarrow> configured st"
proof (induction rule: reachable.induct)
  case created
  show ?case by (simp add: configured_def new_manager_def)
next
  case (handled st ev)
  show ?case
  proof (cases "(\<exists>cfg made. ev = Initialize cfg made) \<or> ev = Shutdown")
    case True
    then show ?thesis by (auto simp: initialize_configured shutdown_configured)
  next
    case False
    then show ?thesis using handle_server [of ev st] handled.IH by (simp add: configured_def)
  qed
qed

section \<open>The scenario is what the program computes\<close>

lemmas demo_defs = demo_config_def demo_phone_def demo_live_def demo_payload_def
  demo_request_def demo_waiting_def

lemmas demo_defs2 = demo_pad_def demo_lapsed_def

lemmas event_defs = handleConnection_def accept_def initialize_def initializeApns_def
  new_manager_def DEFAULT_INPUT_TIMEOUT_MINUTES_def truthy_def or_default_def or_undefined_def
  resendPendingRequestsToDevice_def sendMessage_def emit_def Let_def listener_def on_close_def
  setTimeout_def fire_timer_def ws_close_def

lemmas request_defs = requestMobileInput_def getConnectedDeviceCount_def effective_timeout_def
  new_pending_request_def setTimeout_def request_payload_def input_type_or_default_def
  notifyInputRequired_def notify_client_def sendMessage_def emit_def
  sendApnsPushToDisconnectedDevices_def sendApnsPush_def has_bundle_id_def isConnected_def
  truthy_def Let_def

lemma demo_live_reached:
  "run [Initialize demo_config True,
        Connection 1 (Some ''phone'') (Some ''Phone'') (Some ''tok-phone'') 10] = demo_live"
  by (simp add: run_def demo_defs event_defs)

lemma demo_waiting_reached:
  "requestMobileInput ''proj'' ''Pick'' [''1'', ''2'', ''3''] None (Some 2000)
     ''input_1'' 20 demo_live = (Inr 0, demo_waiting)"
  by (simp add: demo_defs request_defs)

lemma demo_waiting_reachable: "reachable demo_waiting"
proof -
  have "reachable (handle (RequestMobileInput ''proj'' ''Pick'' [''1'', ''2'', ''3''] None (Some 2000)
      ''input_1'' 20) (run [Initialize demo_config True,
        Connection 1 (Some ''phone'') (Some ''Phone'') (Some ''tok-phone'') 10]))"
    by (intro reachable.handled reachable_run)
  then show ?thesis by (simp only: handle.simps demo_live_reached demo_waiting_reached snd_conv)
qed

lemma demo_lapsed_reached:
  "run [Initialize demo_config True,
        Connection 1 (Some ''phone'') (Some ''Phone'') (Some ''tok-phone'') 10,
        Connection 2 (Some ''pad'') (Some ''Pad'') (Some ''tok-pad'') 12,
        SocketClosed 2] = demo_lapsed"
  by (simp add: run_def demo_defs demo_defs2 event_defs)

lemma demo_offline_values:
  "getConnectedDeviceCount (run demo_offline) = 0"
  "deviceApnsTokens (run demo_offline) = [(''pad'', ''tok-pad'')]"
  "\<not> apnsProvider (run demo_offline)"
  "nextPromise (run demo_offline) = 0" "nextTimer (run demo_offline) = 1"
  "inputTimeoutMs (run demo_offline) = 1800000"
  by (simp_all add: run_def demo_offline_def demo_plain_def event_defs getConnectedDeviceCount_def)

section \<open>The properties\<close>

subsection \<open>A request is settled once\<close>

text \<open>
  C1. Take a request \<open>p\<close> stored under \<open>sid\<close> in a consistent state (every state the
  manager reaches is one, by \<open>reachable_consistent\<close>), and any sequence of answers to
  \<open>sid\<close>, firings of the deadline timer of \<open>p\<close> and cancellations of \<open>sid\<close>. The first
  of them removes the entry and settles the promise of \<open>p\<close>; the others leave the state
  as it is. So, in the trace after the whole sequence, the promise is settled by
  exactly one call, the one of the first event.
\<close>

theorem completion_settles_exactly_once:
  assumes state: "consistent st"
      and request: "map_of (pendingRequests st) sid = Some p"
  shows "\<exists>ms.
           foldl (\<lambda>s e. complete sid (timeoutId p) e s) st (ev # evs) =
             complete sid (timeoutId p) ev st \<and>
           map_of (pendingRequests (complete sid (timeoutId p) ev st)) sid = None \<and>
           trace (complete sid (timeoutId p) ev st) = trace st @ [outcome (continuation p) ms ev] \<and>
           settlings (continuation p)
             (trace (foldl (\<lambda>s e. complete sid (timeoutId p) e s) st (ev # evs))) =
             [outcome (continuation p) ms ev]"
proof -
  let ?first = "complete sid (timeoutId p) ev st"
  obtain ms where timer: "map_of (timers st) (timeoutId p) = Some (InputTimeout sid (continuation p) ms)"
    and waiting: "settlings (continuation p) (trace st) = []"
    using consistent_pending [OF state request] by blast
  note first = complete_first [OF request timer, of ev]
  have rest: "foldl (\<lambda>s e. complete sid (timeoutId p) e s) st (ev # evs) = ?first"
    using complete_noops [OF first(2) first(3), of evs] by simp
  have "settles (continuation p) (outcome (continuation p) ms ev)"
    by (cases ev) (simp_all add: outcome_def)
  then have "settlings (continuation p) (trace ?first) = [outcome (continuation p) ms ev]"
    using waiting by (simp add: first(1) settlings_def)
  then show ?thesis using rest first(1,2) by auto
qed

theorem completion_settles_exactly_once_witness:
  "foldl (\<lambda>s e. complete ''input_1'' 0 e s) demo_waiting
     [Answer ''2'' ''Phone'', Expiry, Cancellation, Answer ''3'' ''Pad''] =
     complete ''input_1'' 0 (Answer ''2'' ''Phone'') demo_waiting \<and>
   map_of (pendingRequests (complete ''input_1'' 0 (Answer ''2'' ''Phone'') demo_waiting)) ''input_1'' = None \<and>
   settlings 0 (trace (foldl (\<lambda>s e. complete ''input_1'' 0 e s) demo_waiting
                  [Answer ''2'' ''Phone'', Expiry, Cancellation, Answer ''3'' ''Pad''])) =
     [Resolve 0 ''2'']"
proof -
  have state: "consistent demo_waiting"
    by (rule reachable_consistent [OF demo_waiting_reachable])
  have request: "map_of (pendingRequests demo_waiting) ''input_1'' = Some demo_request"
    by (simp add: demo_defs)
  have id: "timeoutId demo_request = 0" "continuation demo_request = 0"
    by (simp_all add: demo_defs)
  obtain ms where
    "foldl (\<lambda>s e. complete ''input_1'' 0 e s) demo_waiting
       [Answer ''2'' ''Phone'', Expiry, Cancellation, Answer ''3'' ''Pad''] =
       complete ''input_1'' 0 (Answer ''2'' ''Phone'') demo_waiting"
    "map_of (pendingRequests (complete ''input_1'' 0 (Answer ''2'' ''Phone'') demo_waiting)) ''input_1'' = None"
    "settlings 0 (trace (foldl (\<lambda>s e. complete ''input_1'' 0 e s) demo_waiting
                  [Answer ''2'' ''Phone'', Expiry, Cancellation, Answer ''3'' ''Pad''])) =
       [outcome 0 ms (Answer ''2'' ''Phone'')]"
    using completion_settles_exactly_once [OF state request,
        of "Answer ''2'' ''Phone''" "[Expiry, Cancellation, Answer ''3'' ''Pad'']"]
    unfolding id by blast
  then show ?thesis by (simp add: outcome_def)
qed

subsection \<open>Nobody to ask\<close>

text \<open>
  C2. With no open socket and no stored push token, \<^verbatim>\<open>requestMobileInput\<close> throws the
  error of no recipients and leaves the whole state as it was: no entry is added to the
  table of pending requests and no timer is armed.
\<close>

theorem no_recipients_fails_before_any_state_change:
  assumes "getConnectedDeviceCount st = 0" and "deviceApnsTokens st = []"
  shows "requestMobileInput tag text opts ity timeoutMs sid now st = (Inl NoRecipients, st)"
  using assms by (simp add: requestMobileInput_def)

theorem no_recipients_fails_before_any_state_change_witness:
  "requestMobileInput ''proj'' ''Pick'' [] None None ''input_1'' 5 new_manager =
     (Inl NoRecipients, new_manager) \<and>
   pendingRequests new_manager = [] \<and> timers new_manager = []"
proof -
  have "getConnectedDeviceCount new_manager = 0" "deviceApnsTokens new_manager = []"
    by (simp_all add: getConnectedDeviceCount_def new_manager_def)
  then show ?thesis
    using no_recipients_fails_before_any_state_change [of new_manager]
    by (simp add: new_manager_def)
qed

subsection \<open>What the caller receives\<close>




subsection \<open>Shutdown\<close>

text \<open>
  C4 fails on the code. Shutting down while the request of the scenario is pending stops
  the heartbeat, closes the open socket with code 1001 and the reason
  \<open>Server shutting down\<close>, releases the provider, disarms the deadline timer and empties
  the table, but the promise of the request is never rejected: the caller of the
  endpoint waits forever. \<^verbatim>\<open>cancelInputRequest\<close>, in the same state, does reject it.
\<close>

theorem shutdown_leaves_promise_unsettled:
  "trace (shutdown demo_waiting) =
     trace demo_waiting @ [Close 1 (Some (1001, ''Server shutting down'')), WssClose, ApnsShutdown] \<and>
   heartbeatInterval (shutdown demo_waiting) = False \<and>
   apnsProvider (shutdown demo_waiting) = False \<and>
   timers (shutdown demo_waiting) = [] \<and>
   pendingRequests (shutdown demo_waiting) = [] \<and>
   settlement (trace (shutdown demo_waiting)) 0 = None \<and>
   input_request_end 0 20 9000 (shutdown demo_waiting) = None \<and>
   settlement (trace (snd (cancelInputRequest ''input_1'' demo_waiting))) 0 = Some (Inl Cancelled)"
  by (simp add: demo_defs shutdown_def ws_close_def emit_def clearTimeout_def Let_def
        input_request_end_def cancelInputRequest_def)

subsection \<open>One live channel for a device\<close>

text \<open>
  C5 fails on the code. The close listener of a socket looks its device up in the
  registry and marks the client it finds there as disconnected, also when that client
  holds a newer socket; the timer armed at an earlier close then removes that client,
  whose socket is open. In the run \<open>demo_stale\<close> the third socket of the phone is
  registered and active; the close of the second socket marks its client disconnected;
  the timer armed at the close of the first socket removes it. Socket 3 is then open and
  serves the phone, outside the registry. When the phone connects on socket 4, the
  manager finds no client to replace and closes no socket: the identifier has two live
  channels, and a heartbeat that arrives on socket 3 is acknowledged on socket 4.
\<close>

theorem stale_close_listener_leaves_two_live_channels:
  "map_option (\<lambda>c. (ws c, status (session c))) (map_of (clients (run (take 5 demo_stale))) ''phone'') =
     Some (3, Active) \<and>
   map_option (\<lambda>c. (ws c, status (session c))) (map_of (clients (run (take 6 demo_stale))) ''phone'') =
     Some (3, Disconnected) \<and>
   map_of (clients (run demo_stale)) ''phone'' = None \<and>
   live_channels (run demo_stale) ''phone'' = [3] \<and>
   closes (trace (run (demo_stale @ [Connection 4 (Some ''phone'') (Some ''Phone'') None 310000]))) =
     closes (trace (run demo_stale)) \<and>
   live_channels (run (demo_stale @ [Connection 4 (Some ''phone'') (Some ''Phone'') None 310000]))
     ''phone'' = [3, 4] \<and>
   trace (run (demo_stale @ [Connection 4 (Some ''phone'') (Some ''Phone'') None 310000,
                             Message 3 (Some heartbeat) 310500])) =
     trace (run (demo_stale @ [Connection 4 (Some ''phone'') (Some ''Phone'') None 310000])) @
     [Send 4 (heartbeat_ack 310500)]"
  by (simp add: run_def demo_stale_def demo_config_def event_defs live_channels_def
        on_message_def handleMessage_def)

subsection \<open>Redelivery to a device that connects\<close>

text \<open>
  C6. When a device connects on a new, open socket, every request of the table whose
  set of notified devices lacks the identifier is written to that socket as a request
  for input that carries its session id, project tag, prompt, options and input type,
  in the order of the table, and the identifier is added to the set; the requests
  whose set holds the identifier are not written, and their entries do not change.
\<close>

theorem reconnect_redelivers_pending:
  assumes cfg: "config st = Some cfg"
      and table: "distinct (map fst (pendingRequests st))"
      and new: "readyState st w = OPEN"
      and other: "\<forall>ex. map_of (clients st) (or_default qId ''unknown'') = Some ex \<longrightarrow> ws ex \<noteq> w"
  shows "\<exists>st'. handleConnection w qId qName qToken now st = Inr st' \<and>
           requests_sent w (trace st') =
             requests_sent w (trace st) @
             map (\<lambda>entry. \<lparr>pl_sessionId = sessionId (snd entry), pl_projectTag = projectTag (snd entry),
                           pl_prompt = prompt (snd entry), pl_options = options (snd entry),
                           pl_inputType = inputType (snd entry)\<rparr>)
               (filter (\<lambda>entry. or_default qId ''unknown'' \<notin> notifiedDevices (snd entry))
                  (pendingRequests st)) \<and>
           pendingRequests st' =
             map (\<lambda>entry. (fst entry,
                            (snd entry)\<lparr>notifiedDevices :=
                                          insert (or_default qId ''unknown'') (notifiedDevices (snd entry))\<rparr>))
               (pendingRequests st) \<and>
           (\<forall>entry \<in> set (pendingRequests st).
              or_default qId ''unknown'' \<in> notifiedDevices (snd entry) \<longrightarrow>
              (fst entry,
               (snd entry)\<lparr>notifiedDevices :=
                             insert (or_default qId ''unknown'') (notifiedDevices (snd entry))\<rparr>) = entry)"
proof -
  let ?dev = "or_default qId ''unknown''"
  obtain st' where r: "handleConnection w qId qName qToken now st = Inr st'"
    using handleConnection_Inr [OF cfg] by blast
  have w_open: "readyState st' w = OPEN"
    using handleConnection_readyState [OF r] new other by (auto split: option.splits)
  obtain ack where t: "trace st' = trace st @ map (\<lambda>w'. Close w' None) (closing st ?dev) @
      resent ?dev w now (pendingRequests st) @ [Send w (handshake_ack now ack)]"
    using handleConnection_trace [OF r] w_open by auto
  have "requests_sent w (map (\<lambda>w'. Close w' None) (closing st ?dev)) = []"
    by (simp add: closing_def split: option.splits)
  then have "requests_sent w (trace st') =
      requests_sent w (trace st) @
      map (\<lambda>entry. payload_of (snd entry))
        (filter (\<lambda>entry. ?dev \<notin> notifiedDevices (snd entry)) (pendingRequests st))"
    by (simp add: t requests_sent_append requests_sent_resent)
  moreover have "pendingRequests st' = map (mark_notified ?dev) (pendingRequests st)"
    by (rule handleConnection_pending [OF r table])
  moreover have "mark_notified ?dev entry = entry" if "?dev \<in> notifiedDevices (snd entry)" for entry
    using that by (rule mark_notified_id)
  ultimately show ?thesis
    using r unfolding payload_of_def mark_notified_def by auto
qed

theorem reconnect_redelivers_pending_witness:
  "\<exists>st'. handleConnection 2 (Some ''pad'') (Some ''Pad'') None 30 (accept 2 demo_waiting) = Inr st' \<and>
          requests_sent 2 (trace st') = [demo_payload] \<and>
          pendingRequests st' = [(''input_1'', demo_request\<lparr>notifiedDevices := {''pad'', ''phone''}\<rparr>)]"
proof -
  have cfg: "config (accept 2 demo_waiting) = Some demo_config"
    by (simp add: demo_defs accept_def)
  have table: "distinct (map fst (pendingRequests (accept 2 demo_waiting)))"
    by (simp add: demo_defs accept_def)
  have new: "readyState (accept 2 demo_waiting) 2 = OPEN"
    by (simp add: demo_defs accept_def)
  have other: "\<forall>ex. map_of (clients (accept 2 demo_waiting)) (or_default (Some ''pad'') ''unknown'') = Some ex
                 \<longrightarrow> ws ex \<noteq> 2"
    by (simp add: demo_defs accept_def or_default_def)
  show ?thesis
    using reconnect_redelivers_pending [OF cfg table new other, of "Some ''Pad''" None 30]
    by (simp add: demo_defs accept_def or_default_def)
qed

subsection \<open>The deadline\<close>

text \<open>
  C7. A request that is accepted arms a timer with the timeout of the caller, or with
  the manager's own when the caller gives none: 30 minutes, unless the configuration
  read at start-up holds another number of minutes. If the timer fires while it is
  armed (no answer, no cancellation), the entry of the request is removed from the
  table and the promise is rejected with the timeout error, which the endpoint reports
  with status 504.
\<close>

theorem deadline_rejects_with_timeout:
  assumes recipients: "0 < getConnectedDeviceCount st \<or> deviceApnsTokens st \<noteq> []"
      and waiting: "settlement (trace st) (nextPromise st) = None"
  shows "(\<exists>st1 p.
            requestMobileInput tag text opts ity timeoutMs sid now st = (Inr (nextPromise st), st1) \<and>
            map_of (pendingRequests st1) sid = Some p \<and> continuation p = nextPromise st \<and>
            map_of (timers st1) (timeoutId p) =
              Some (InputTimeout sid (nextPromise st) (effective_timeout st timeoutMs)) \<and>
            map_of (pendingRequests (fire_timer (timeoutId p) st1)) sid = None \<and>
            trace (fire_timer (timeoutId p) st1) =
              trace st1 @ [Reject (nextPromise st) (TimedOut (effective_timeout st timeoutMs))] \<and>
            input_request_end (nextPromise st) started finished (fire_timer (timeoutId p) st1) =
              Some (InputRequestErrorResponse 504 (Failed (TimedOut (effective_timeout st timeoutMs)))
                      (getConnectedDeviceCount (fire_timer (timeoutId p) st1)))) \<and>
         effective_timeout st None = inputTimeoutMs st \<and>
         (\<forall>ms. effective_timeout st (Some ms) = ms) \<and>
         inputTimeoutMs new_manager = 30 * 60 * 1000 \<and>
         inputTimeoutMs (initialize cfg created new_manager) =
           (case monitoring cfg of
              None \<Rightarrow> 30 * 60 * 1000
            | Some m \<Rightarrow> if input_timeout_minutes m \<noteq> 0 then input_timeout_minutes m * 60 * 1000
                         else 30 * 60 * 1000) \<and>
         (\<forall>s t k ms. map_of (timers s) t = Some (InputTimeout sid k ms) \<longrightarrow>
            map_of (pendingRequests (fire_timer t s)) sid = None \<and>
            trace (fire_timer t s) = trace s @ [Reject k (TimedOut ms)])"
proof -
  let ?k = "nextPromise st"
  let ?eff = "effective_timeout st timeoutMs"
  let ?st3 = "new_pending_request tag text opts (input_type_or_default ity) ?eff sid now st"
  let ?st1 = "snd (requestMobileInput tag text opts ity timeoutMs sid now st)"
  have d: "delivers ?st3 ?st1" by (rule requestMobileInput_delivers [OF recipients])
  have res: "requestMobileInput tag text opts ity timeoutMs sid now st = (Inr ?k, ?st1)"
    by (simp add: requestMobileInput_accepts [OF recipients])
  have "\<exists>p0. map_of (pendingRequests ?st3) sid = Some p0 \<and> timeoutId p0 = nextTimer st \<and> continuation p0 = ?k"
    by (simp add: new_pending_request_fields AList.update_conv')
  then obtain p where p: "map_of (pendingRequests ?st1) sid = Some p" "timeoutId p = nextTimer st"
      "continuation p = ?k"
    using delivers_pending [OF d] by metis
  have tm: "map_of (timers ?st1) (timeoutId p) = Some (InputTimeout sid ?k ?eff)"
    by (simp add: delivers_fields(9) [OF d] new_pending_request_fields AList.update_conv' p(2))
  have w1: "settlement (trace ?st1) ?k = None"
    using waiting by (simp add: delivers_settlement [OF d] new_pending_request_fields)
  have f: "fire_timer (timeoutId p) ?st1 =
           ?st1\<lparr>timers := AList.delete (timeoutId p) (timers ?st1),
             pendingRequests := AList.delete sid (pendingRequests ?st1),
             trace := trace ?st1 @ [Reject ?k (TimedOut ?eff)]\<rparr>"
    by (rule fire_input_timeout [OF tm])
  have "map_of (pendingRequests (fire_timer (timeoutId p) ?st1)) sid = None"
    by (simp add: f map_of_delete_same)
  moreover have "trace (fire_timer (timeoutId p) ?st1) = trace ?st1 @ [Reject ?k (TimedOut ?eff)]"
    by (simp add: f)
  moreover have "input_request_end ?k started finished (fire_timer (timeoutId p) ?st1) =
             Some (InputRequestErrorResponse 504 (Failed (TimedOut ?eff))
                     (getConnectedDeviceCount (fire_timer (timeoutId p) ?st1)))"
    unfolding input_request_end_def
    by (simp add: f settlement_append w1 failure_response_def)
  ultimately have request: "\<exists>st1 p.
            requestMobileInput tag text opts ity timeoutMs sid now st = (Inr (nextPromise st), st1) \<and>
            map_of (pendingRequests st1) sid = Some p \<and> continuation p = nextPromise st \<and>
            map_of (timers st1) (timeoutId p) =
              Some (InputTimeout sid (nextPromise st) (effective_timeout st timeoutMs)) \<and>
            map_of (pendingRequests (fire_timer (timeoutId p) st1)) sid = None \<and>
            trace (fire_timer (timeoutId p) st1) =
              trace st1 @ [Reject (nextPromise st) (TimedOut (effective_timeout st timeoutMs))] \<and>
            input_request_end (nextPromise st) started finished (fire_timer (timeoutId p) st1) =
              Some (InputRequestErrorResponse 504 (Failed (TimedOut (effective_timeout st timeoutMs)))
                      (getConnectedDeviceCount (fire_timer (timeoutId p) st1)))"
    using res p tm by blast
  have default: "inputTimeoutMs new_manager = 30 * 60 * 1000"
    by (simp add: new_manager_def DEFAULT_INPUT_TIMEOUT_MINUTES_def)
  have configured: "inputTimeoutMs (initialize cfg created new_manager) =
           (case monitoring cfg of
              None \<Rightarrow> 30 * 60 * 1000
            | Some m \<Rightarrow> if input_timeout_minutes m \<noteq> 0 then input_timeout_minutes m * 60 * 1000
                         else 30 * 60 * 1000)"
    by (simp add: initialize_inputTimeoutMs default split: option.splits)
  have fires: "\<forall>s t k ms. map_of (timers s) t = Some (InputTimeout sid k ms) \<longrightarrow>
            map_of (pendingRequests (fire_timer t s)) sid = None \<and>
            trace (fire_timer t s) = trace s @ [Reject k (TimedOut ms)]"
    by (simp add: fire_input_timeout map_of_delete_same)
  show ?thesis
    using request default configured fires by (simp add: effective_timeout_def)
qed

theorem deadline_rejects_with_timeout_witness:
  "fst (requestMobileInput ''proj'' ''Pick'' [] None None ''input_1'' 20 demo_live) = Inr 0 \<and>
   map_of (timers (snd (requestMobileInput ''proj'' ''Pick'' [] None None ''input_1'' 20
                          demo_live))) 0 = Some (InputTimeout ''input_1'' 0 1800000) \<and>
   map_of (pendingRequests (fire_timer 0 demo_waiting)) ''input_1'' = None \<and>
   trace (fire_timer 0 demo_waiting) = trace demo_waiting @ [Reject 0 (TimedOut 2000)]"
proof -
  have recipients: "0 < getConnectedDeviceCount demo_live \<or> deviceApnsTokens demo_live \<noteq> []"
    by (simp add: demo_defs)
  have waiting: "settlement (trace demo_live) (nextPromise demo_live) = None"
    by (simp add: demo_defs)
  have armed: "map_of (timers demo_waiting) 0 = Some (InputTimeout ''input_1'' 0 2000)"
    by (simp add: demo_defs)
  have eff: "effective_timeout demo_live None = 1800000" "nextPromise demo_live = 0"
    by (simp_all add: demo_defs effective_timeout_def)
  note t = deadline_rejects_with_timeout [OF recipients waiting,
      of "''proj''" "''Pick''" "[]" None None "''input_1''" 20 0 0 demo_config True]
  from t obtain st1 p where a:
    "requestMobileInput ''proj'' ''Pick'' [] None None ''input_1'' 20 demo_live = (Inr 0, st1)"
    "map_of (pendingRequests st1) ''input_1'' = Some p"
    "map_of (timers st1) (timeoutId p) = Some (InputTimeout ''input_1'' 0 1800000)"
    unfolding eff by blast
  have "timeoutId p = 0"
    using a(1,2) recipients
    by (simp add: demo_defs request_defs) auto
  then have first: "fst (requestMobileInput ''proj'' ''Pick'' [] None None ''input_1'' 20
                demo_live) = Inr 0"
      "map_of (timers (snd (requestMobileInput ''proj'' ''Pick'' [] None None ''input_1'' 20
                          demo_live))) 0 = Some (InputTimeout ''input_1'' 0 1800000)"
    using a by simp_all
  from t have "\<forall>s t k ms. map_of (timers s) t = Some (InputTimeout ''input_1'' k ms) \<longrightarrow>
            map_of (pendingRequests (fire_timer t s)) ''input_1'' = None \<and>
            trace (fire_timer t s) = trace s @ [Reject k (TimedOut ms)]"
    by blast
  then have "map_of (pendingRequests (fire_timer 0 demo_waiting)) ''input_1'' = None \<and>
            trace (fire_timer 0 demo_waiting) = trace demo_waiting @ [Reject 0 (TimedOut 2000)]"
    using armed by blast
  then show ?thesis using first by simp
qed

subsection \<open>The push fallback\<close>

text \<open>
  C8 fails on the code, by the defect of C5. After the run \<open>demo_stale\<close> the phone has
  a live channel, socket 3, which the registry has lost. A request made then counts no
  connected device and writes nothing to socket 3; the push loop looks the phone up in
  the registry, finds no client and hands a push for the token of the phone to the
  provider: the push fallback is used for a device that has an open live channel.
  (The defect does not touch the rest of C8: a provider that throws or reports
  a failure makes \<^verbatim>\<open>sendApnsPush\<close> return \<^verbatim>\<open>false\<close>, \<open>sendApnsPush_returns_iff\<close>, and the
  loop goes on to the next entry whatever the result, \<open>fanned_step\<close>.)
\<close>

theorem push_reaches_device_with_live_channel:
  "live_channels (run demo_stale) ''phone'' = [3] \<and>
   deviceApnsTokens (run demo_stale) = [(''phone'', ''tok-phone'')] \<and>
   getConnectedDeviceCount (run demo_stale) = 0 \<and>
   fst (requestMobileInput ''proj'' ''Pick'' [''1'', ''2'', ''3''] None (Some 2000) ''input_1'' 300500
          (run demo_stale)) = Inr 0 \<and>
   requests_sent 3 (trace (snd (requestMobileInput ''proj'' ''Pick'' [''1'', ''2'', ''3''] None (Some 2000)
                                  ''input_1'' 300500 (run demo_stale)))) = [] \<and>
   pushes (trace (snd (requestMobileInput ''proj'' ''Pick'' [''1'', ''2'', ''3''] None (Some 2000)
                         ''input_1'' 300500 (run demo_stale)))) = [(''tok-phone'', demo_payload)]"
  by (simp add: run_def demo_stale_def demo_config_def demo_payload_def event_defs request_defs
        live_channels_def)

subsection \<open>The push address is durable\<close>

text \<open>
  C9. A connection that carries a push token stores it under the device identifier,
  in place of the one stored before; a connection that carries none (or an empty one)
  leaves the token map as it was. When the timer that ends a disconnected session
  fires, the session leaves the registry and the token map is not touched: a request
  made afterwards is accepted, and its push loop, resumed with whatever the provider
  answers until it has passed the whole map, hands a push for the token of the device
  to the provider.
\<close>

theorem push_address_is_durable:
  "(handleConnection w qId qName qToken now st = Inr st' \<longrightarrow>
      (\<forall>a. qToken = Some a \<and> a \<noteq> [] \<longrightarrow>
         deviceApnsTokens st' = AList.update (or_default qId ''unknown'') a (deviceApnsTokens st) \<and>
         map_of (deviceApnsTokens st') (or_default qId ''unknown'') = Some a) \<and>
      (qToken = None \<or> qToken = Some [] \<longrightarrow> deviceApnsTokens st' = deviceApnsTokens st)) \<and>
   deviceApnsTokens (fire_timer t s) = deviceApnsTokens s \<and>
   (map_of (timers s) t = Some (SessionTimeout d) \<and>
    map_of (clients s) d = Some c \<and> status (session c) = Disconnected \<and>
    map_of (deviceApnsTokens s) d = Some token \<and> distinct (map fst (deviceApnsTokens s)) \<and>
    apnsProvider s \<and> has_bundle_id s \<longrightarrow>
      map_of (clients (fire_timer t s)) d = None \<and>
      fst (requestMobileInput tag text opts ity timeoutMs sid later (fire_timer t s)) =
        Inr (nextPromise s) \<and>
      (\<forall>answers. length (deviceApnsTokens s) \<le> length answers \<longrightarrow>
         (token, request_payload tag text opts ity sid) \<in>
           set (pushes (trace (foldl (\<lambda>st answer. sendApnsPush_settled (nextPromise s) answer st)
                                 (snd (requestMobileInput tag text opts ity timeoutMs sid later
                                         (fire_timer t s)))
                                 answers)))))"
proof (intro conjI impI allI)
  assume connection: "handleConnection w qId qName qToken now st = Inr st'"
  show "deviceApnsTokens st' = deviceApnsTokens st" if "qToken = None \<or> qToken = Some []"
    using handleConnection_tokens [OF connection] that by (auto simp: or_undefined_def)
  fix a assume "qToken = Some a \<and> a \<noteq> []"
  then show "deviceApnsTokens st' = AList.update (or_default qId ''unknown'') a (deviceApnsTokens st)"
    "map_of (deviceApnsTokens st') (or_default qId ''unknown'') = Some a"
    using handleConnection_tokens [OF connection] by (simp_all add: or_undefined_def AList.update_conv')
next
  show "deviceApnsTokens (fire_timer t s) = deviceApnsTokens s" by (rule fire_timer_tokens)
next
  assume a: "map_of (timers s) t = Some (SessionTimeout d) \<and>
    map_of (clients s) d = Some c \<and> status (session c) = Disconnected \<and>
    map_of (deviceApnsTokens s) d = Some token \<and> distinct (map fst (deviceApnsTokens s)) \<and>
    apnsProvider s \<and> has_bundle_id s"
  let ?e = "fire_timer t s"
  have e: "?e = s\<lparr>timers := AList.delete t (timers s), clients := AList.delete d (clients s)\<rparr>"
    using a by (intro fire_session_timeout) auto
  show gone: "map_of (clients ?e) d = None" by (simp add: e map_of_delete_same)
  have tk: "deviceApnsTokens ?e = deviceApnsTokens s" by (simp add: e)
  have np: "nextPromise ?e = nextPromise s" by (simp add: e)
  have mem: "(d, token) \<in> set (deviceApnsTokens s)" using a by (auto dest: map_of_SomeD)
  then have ne: "0 < getConnectedDeviceCount ?e \<or> deviceApnsTokens ?e \<noteq> []"
    by (auto simp: tk)
  show "fst (requestMobileInput tag text opts ity timeoutMs sid later ?e) = Inr (nextPromise s)"
    by (simp add: requestMobileInput_accepts [OF ne]) (simp add: e)
  fix answers :: "(string + string list) list"
  assume enough: "length (deviceApnsTokens s) \<le> length answers"
  have able: "apnsProvider ?e" "has_bundle_id ?e"
    using a by (simp_all add: e has_bundle_id_def)
  have keys: "distinct (map fst (deviceApnsTokens ?e))" using a by (simp add: tk)
  have "\<not> isConnected ?e d" by (simp add: isConnected_def gone)
  then have "(d, token) \<in> set (filter (\<lambda>entry. \<not> isConnected ?e (fst entry)) (deviceApnsTokens ?e))"
    using mem by (simp add: tk)
  then have "(token, request_payload tag text opts ity sid) \<in>
      set (pushes (trace ?e) @
           map (\<lambda>entry. (snd entry, request_payload tag text opts ity sid))
             (filter (\<lambda>entry. \<not> isConnected ?e (fst entry)) (deviceApnsTokens ?e)))"
    by force
  then show "(token, request_payload tag text opts ity sid) \<in>
           set (pushes (trace (foldl (\<lambda>st answer. sendApnsPush_settled (nextPromise s) answer st)
                                 (snd (requestMobileInput tag text opts ity timeoutMs sid later ?e))
                                 answers)))"
    using requestMobileInput_fans_out [OF ne able keys, of answers tag "text" opts ity timeoutMs sid later]
      enough
    by (simp only: tk np)
qed

theorem push_address_is_durable_witness:
  "(\<exists>st'. handleConnection 3 (Some ''pad'') (Some ''Pad'') (Some ''tok-new'') 40 (accept 3 demo_lapsed) = Inr st' \<and>
           deviceApnsTokens st' = [(''phone'', ''tok-phone''), (''pad'', ''tok-new'')]) \<and>
   (\<exists>st'. handleConnection 3 (Some ''pad'') (Some ''Pad'') None 40 (accept 3 demo_lapsed) = Inr st' \<and>
           deviceApnsTokens st' = [(''phone'', ''tok-phone''), (''pad'', ''tok-pad'')]) \<and>
   map_of (clients (fire_timer 0 demo_lapsed)) ''pad'' = None \<and>
   deviceApnsTokens (fire_timer 0 demo_lapsed) = [(''phone'', ''tok-phone''), (''pad'', ''tok-pad'')] \<and>
   (''tok-pad'', demo_payload) \<in>
     set (pushes (trace (foldl (\<lambda>st answer. sendApnsPush_settled 0 answer st)
                           (snd (requestMobileInput ''proj'' ''Pick'' [''1'', ''2'', ''3''] None
                                   (Some 2000) ''input_1'' 400000 (fire_timer 0 demo_lapsed)))
                           [Inl ''socket hang up'', Inr []])))"
proof -
  have cfg: "config (accept 3 demo_lapsed) = Some demo_config"
    by (simp add: demo_defs demo_defs2 accept_def)
  have tk: "deviceApnsTokens (accept 3 demo_lapsed) = [(''phone'', ''tok-phone''), (''pad'', ''tok-pad'')]"
    "deviceApnsTokens demo_lapsed = [(''phone'', ''tok-phone''), (''pad'', ''tok-pad'')]"
    by (simp_all add: demo_defs demo_defs2 accept_def)
  obtain st1 where c1:
    "handleConnection 3 (Some ''pad'') (Some ''Pad'') (Some ''tok-new'') 40 (accept 3 demo_lapsed) = Inr st1"
    using handleConnection_Inr [OF cfg] by blast
  obtain st2 where c2:
    "handleConnection 3 (Some ''pad'') (Some ''Pad'') None 40 (accept 3 demo_lapsed) = Inr st2"
    using handleConnection_Inr [OF cfg] by blast
  have "deviceApnsTokens st1 = [(''phone'', ''tok-phone''), (''pad'', ''tok-new'')]"
    using push_address_is_durable [of 3 "Some ''pad''" "Some ''Pad''" "Some ''tok-new''" 40
        "accept 3 demo_lapsed" st1] c1
    by (simp add: tk or_default_def)
  moreover have "deviceApnsTokens st2 = [(''phone'', ''tok-phone''), (''pad'', ''tok-pad'')]"
    using push_address_is_durable [of 3 "Some ''pad''" "Some ''Pad''" None 40
        "accept 3 demo_lapsed" st2] c2
    by (simp add: tk)
  moreover have
    "map_of (clients (fire_timer 0 demo_lapsed)) ''pad'' = None \<and>
     deviceApnsTokens (fire_timer 0 demo_lapsed) = [(''phone'', ''tok-phone''), (''pad'', ''tok-pad'')] \<and>
     (''tok-pad'', demo_payload) \<in>
       set (pushes (trace (foldl (\<lambda>st answer. sendApnsPush_settled 0 answer st)
                             (snd (requestMobileInput ''proj'' ''Pick'' [''1'', ''2'', ''3''] None
                                     (Some 2000) ''input_1'' 400000 (fire_timer 0 demo_lapsed)))
                             [Inl ''socket hang up'', Inr []])))"
  proof -
    have h: "map_of (timers demo_lapsed) 0 = Some (SessionTimeout ''pad'') \<and>
        map_of (clients demo_lapsed) ''pad'' = Some demo_pad \<and> status (session demo_pad) = Disconnected \<and>
        map_of (deviceApnsTokens demo_lapsed) ''pad'' = Some ''tok-pad'' \<and>
        distinct (map fst (deviceApnsTokens demo_lapsed)) \<and>
        apnsProvider demo_lapsed \<and> has_bundle_id demo_lapsed"
      by (simp add: demo_defs demo_defs2 has_bundle_id_def truthy_def)
    have pl: "request_payload ''proj'' ''Pick'' [''1'', ''2'', ''3''] None ''input_1'' = demo_payload"
      by (simp add: request_payload_def input_type_or_default_def demo_defs)
    have np: "nextPromise demo_lapsed = 0" by (simp add: demo_defs demo_defs2)
    have enough: "length (deviceApnsTokens demo_lapsed) \<le> length [Inl ''socket hang up'', Inr [] :: string + string list]"
      by (simp add: tk)
    note t = push_address_is_durable [of _ _ _ _ _ _ _ 0 demo_lapsed "''pad''" demo_pad "''tok-pad''"
          "''proj''" "''Pick''" "[''1'', ''2'', ''3'']" None "Some 2000" "''input_1''" 400000]
    from t h have gone: "map_of (clients (fire_timer 0 demo_lapsed)) ''pad'' = None"
      and kept: "deviceApnsTokens (fire_timer 0 demo_lapsed) = deviceApnsTokens demo_lapsed"
      and pushed: "\<forall>answers. length (deviceApnsTokens demo_lapsed) \<le> length answers \<longrightarrow>
         (''tok-pad'', request_payload ''proj'' ''Pick'' [''1'', ''2'', ''3''] None ''input_1'') \<in>
           set (pushes (trace (foldl (\<lambda>st answer. sendApnsPush_settled (nextPromise demo_lapsed) answer st)
                                 (snd (requestMobileInput ''proj'' ''Pick'' [''1'', ''2'', ''3''] None
                                         (Some 2000) ''input_1'' 400000 (fire_timer 0 demo_lapsed)))
                                 answers)))"
      by blast+
    from pushed enough have "(''tok-pad'', request_payload ''proj'' ''Pick'' [''1'', ''2'', ''3''] None ''input_1'') \<in>
           set (pushes (trace (foldl (\<lambda>st answer. sendApnsPush_settled (nextPromise demo_lapsed) answer st)
                                 (snd (requestMobileInput ''proj'' ''Pick'' [''1'', ''2'', ''3''] None
                                         (Some 2000) ''input_1'' 400000 (fire_timer 0 demo_lapsed)))
                                 [Inl ''socket hang up'', Inr []])))"
      by blast
    then show ?thesis
      using gone kept unfolding pl np by (simp only: tk)
  qed
  ultimately show ?thesis using c1 c2 by simp
qed

subsection \<open>Tokens without a provider\<close>

text \<open>
  C10. With a stored token, no provider and no open socket, \<^verbatim>\<open>requestMobileInput\<close> does
  not throw: it arms the timer and stores the request, and nothing is written to a
  socket or handed to a provider (the trace is unchanged, both tracking sets are
  empty and no push loop is left waiting). From that state each way of ending settles
  the promise: the timer, a cancellation, and an answer; and a device that connects on
  a fresh socket is sent the request.
\<close>

theorem tokens_without_provider_deliver_nothing:
  assumes nobody: "getConnectedDeviceCount st = 0"
      and tokens: "deviceApnsTokens st \<noteq> []"
      and no_provider: "\<not> apnsProvider st"
  shows "requestMobileInput tag text opts ity timeoutMs sid now st =
           (Inr (nextPromise st),
            new_pending_request tag text opts (input_type_or_default ity)
              (effective_timeout st timeoutMs) sid now st) \<and>
         trace (snd (requestMobileInput tag text opts ity timeoutMs sid now st)) = trace st \<and>
         pushLoops (snd (requestMobileInput tag text opts ity timeoutMs sid now st)) = pushLoops st \<and>
         map_of (pendingRequests (snd (requestMobileInput tag text opts ity timeoutMs sid now st)))
             sid =
           Some \<lparr>requestId = sid, sessionId = sid, projectTag = tag, prompt = text, options = opts,
                 inputType = input_type_or_default ity, createdAt = now,
                 continuation = nextPromise st, timeoutId = nextTimer st,
                 notifiedDevices = {}, pushedViaApns = {}\<rparr> \<and>
         map_of (timers (snd (requestMobileInput tag text opts ity timeoutMs sid now st)))
             (nextTimer st) =
           Some (InputTimeout sid (nextPromise st) (effective_timeout st timeoutMs)) \<and>
         (\<forall>ev. trace (complete sid (nextTimer st) ev
                        (snd (requestMobileInput tag text opts ity timeoutMs sid now st))) =
                 trace st @ [outcome (nextPromise st) (effective_timeout st timeoutMs) ev]) \<and>
         (\<forall>w qId qName qToken later st2.
            (\<forall>entry \<in> set (clients st). ws (snd entry) \<noteq> w) \<and>
            handleConnection w qId qName qToken later
              (accept w (snd (requestMobileInput tag text opts ity timeoutMs sid now st))) =
              Inr st2 \<longrightarrow>
            request_payload tag text opts ity sid \<in> set (requests_sent w (trace st2)))"
proof -
  let ?eff = "effective_timeout st timeoutMs"
  let ?st3 = "new_pending_request tag text opts (input_type_or_default ity) ?eff sid now st"
  let ?p0 = "\<lparr>requestId = sid, sessionId = sid, projectTag = tag, prompt = text, options = opts,
                 inputType = input_type_or_default ity, createdAt = now,
                 continuation = nextPromise st, timeoutId = nextTimer st,
                 notifiedDevices = {}, pushedViaApns = {}\<rparr>"
  have "getConnectedDeviceCount ?st3 = 0"
    using nobody by (simp add: getConnectedDeviceCount_def new_pending_request_fields)
  then have "notifyInputRequired (request_payload tag text opts ity sid) (Some sid) now ?st3 = ?st3"
    by (rule notifyInputRequired_nobody)
  moreover have "sendApnsPushToDisconnectedDevices (request_payload tag text opts ity sid) sid
                   (nextPromise st) ?st3 = ?st3"
    using no_provider by (simp add: sendApnsPushToDisconnectedDevices_def new_pending_request_fields)
  ultimately have res: "requestMobileInput tag text opts ity timeoutMs sid now st =
      (Inr (nextPromise st), ?st3)"
    using tokens by (simp add: requestMobileInput_accepts)
  have tr: "trace ?st3 = trace st" by (simp add: new_pending_request_fields)
  have lo: "pushLoops ?st3 = pushLoops st" by (simp add: new_pending_request_fields)
  have pe: "map_of (pendingRequests ?st3) sid = Some ?p0"
    by (simp add: new_pending_request_fields AList.update_conv')
  have tm: "map_of (timers ?st3) (nextTimer st) = Some (InputTimeout sid (nextPromise st) ?eff)"
    by (simp add: new_pending_request_fields AList.update_conv')
  have ends: "trace (complete sid (nextTimer st) ev ?st3) = trace st @ [outcome (nextPromise st) ?eff ev]" for ev
    using complete_first(1) [of ?st3 sid ?p0 ?eff ev] pe tm by (simp add: tr)
  have redelivery: "request_payload tag text opts ity sid \<in> set (requests_sent w (trace st2))"
    if fresh: "\<forall>entry \<in> set (clients st). ws (snd entry) \<noteq> w"
      and r: "handleConnection w qId qName qToken later (accept w ?st3) = Inr st2"
    for w qId qName qToken later st2
  proof -
    let ?dev = "or_default qId ''unknown''"
    let ?a = "accept w ?st3"
    have cl: "clients ?a = clients st" by (simp add: accept_def new_pending_request_fields)
    have "ws ex \<noteq> w" if "map_of (clients ?a) ?dev = Some ex" for ex
      using map_of_SomeD [OF that] fresh unfolding cl by fastforce
    then have w_open: "readyState st2 w = OPEN"
      using handleConnection_readyState [OF r] by (auto simp: accept_def split: option.splits)
    obtain ack where t: "trace st2 = trace ?a @ map (\<lambda>w'. Close w' None) (closing ?a ?dev) @
        resent ?dev w later (pendingRequests ?a) @ [Send w (handshake_ack later ack)]"
      using handleConnection_trace [OF r] w_open by auto
    have "(sid, ?p0) \<in> set (pendingRequests ?a)"
      using pe by (auto simp: accept_def dest: map_of_SomeD)
    then have "payload_of ?p0 \<in> set (requests_sent w (resent ?dev w later (pendingRequests ?a)))"
      by (force simp: requests_sent_resent)
    then show ?thesis
      by (simp add: t requests_sent_append payload_of_def request_payload_def)
  qed
  show ?thesis
    unfolding res snd_conv using tr lo pe tm ends redelivery by blast
qed

theorem tokens_without_provider_deliver_nothing_witness:
  "fst (requestMobileInput ''proj'' ''Pick'' [] None None ''input_1'' 5 (run demo_offline)) = Inr 0 \<and>
   trace (snd (requestMobileInput ''proj'' ''Pick'' [] None None ''input_1'' 5 (run demo_offline))) =
     trace (run demo_offline) \<and>
   map_of (timers (snd (requestMobileInput ''proj'' ''Pick'' [] None None ''input_1'' 5
                          (run demo_offline)))) 1 = Some (InputTimeout ''input_1'' 0 1800000)"
proof -
  have nobody: "getConnectedDeviceCount (run demo_offline) = 0"
    by (rule demo_offline_values)
  have tokens: "deviceApnsTokens (run demo_offline) \<noteq> []"
    by (simp add: demo_offline_values)
  have no_provider: "\<not> apnsProvider (run demo_offline)"
    by (rule demo_offline_values)
  have v: "nextPromise (run demo_offline) = 0" "nextTimer (run demo_offline) = 1"
    "effective_timeout (run demo_offline) None = 1800000"
    by (simp_all add: demo_offline_values effective_timeout_def)
  note t = tokens_without_provider_deliver_nothing [OF nobody tokens no_provider,
        of "''proj''" "''Pick''" "[]" None None "''input_1''" 5]
  from t have accepted: "fst (requestMobileInput ''proj'' ''Pick'' [] None None ''input_1'' 5
                               (run demo_offline)) = Inr (nextPromise (run demo_offline))"
    by simp
  from t have silent: "trace (snd (requestMobileInput ''proj'' ''Pick'' [] None None ''input_1'' 5
                                     (run demo_offline))) = trace (run demo_offline)"
    and armed: "map_of (timers (snd (requestMobileInput ''proj'' ''Pick'' [] None None ''input_1'' 5
                                       (run demo_offline)))) (nextTimer (run demo_offline)) =
                  Some (InputTimeout ''input_1'' (nextPromise (run demo_offline))
                          (effective_timeout (run demo_offline) None))"
    by blast+
  show ?thesis
    using accepted silent armed unfolding v by simp
qed

end
